theory Spec2Isabelle
  imports Complex_Main "HOL-Library.Multiset" "HOL-Library.Sublist"
begin

section \<open>Values shared by the pipeline stages\<close>

text \<open>
  The theory embeds the numeric and list-processing core of
  \<^verbatim>\<open>src/talknet_asd/asd_pipeline.py\<close>.  Python numbers that the code divides or
  averages are rationals here (exact arithmetic stands in for IEEE doubles); frame
  numbers and configuration values are Python integers (\<^typ>\<open>int\<close>).  Every exception
  the embedded code can raise is a value of \<open>py_error\<close>.
\<close>

datatype py_error = ZeroDivisionError | IndexError | ValueError

text \<open>A bounding box is the four-element list \<^verbatim>\<open>[x0, y0, x1, y1]\<close> of the source.\<close>

type_synonym box = "rat \<times> rat \<times> rat \<times> rat"

section \<open>\<^verbatim>\<open>FaceProcessor.bb_intersection_over_union\<close>\<close>

definition interArea :: "box \<Rightarrow> box \<Rightarrow> rat" where
  "interArea boxA boxB =
     (case boxA of (a0, a1, a2, a3) \<Rightarrow> case boxB of (b0, b1, b2, b3) \<Rightarrow>
        let xA = max a0 b0; yA = max a1 b1; xB = min a2 b2; yB = min a3 b3
        in max 0 (xB - xA) * max 0 (yB - yA))"

definition boxArea :: "box \<Rightarrow> rat" where
  "boxArea b = (case b of (x0, y0, x1, y1) \<Rightarrow> (x1 - x0) * (y1 - y0))"

text \<open>
  Python's \<^verbatim>\<open>/\<close> on a zero float raises \<^verbatim>\<open>ZeroDivisionError\<close>; both modes of the
  function keep that branch.
\<close>

definition bb_intersection_over_union :: "box \<Rightarrow> box \<Rightarrow> bool \<Rightarrow> py_error + rat" where
  "bb_intersection_over_union boxA boxB evalCol =
     (if evalCol then
        (if boxArea boxA = 0 then Inl ZeroDivisionError
         else Inr (interArea boxA boxB / boxArea boxA))
      else
        (if boxArea boxA + boxArea boxB - interArea boxA boxB = 0 then Inl ZeroDivisionError
         else Inr (interArea boxA boxB / (boxArea boxA + boxArea boxB - interArea boxA boxB))))"

text \<open>A well-formed box: the second corner lies strictly right of and below the first.\<close>

definition proper_box :: "box \<Rightarrow> bool" where
  "proper_box b = (case b of (x0, y0, x1, y1) \<Rightarrow> x0 < x1 \<and> y0 < y1)"

text \<open>Two boxes whose projections on one of the axes do not overlap.\<close>

definition non_overlapping :: "box \<Rightarrow> box \<Rightarrow> bool" where
  "non_overlapping boxA boxB =
     (case boxA of (a0, a1, a2, a3) \<Rightarrow> case boxB of (b0, b1, b2, b3) \<Rightarrow>
        a2 \<le> b0 \<or> b2 \<le> a0 \<or> a3 \<le> b1 \<or> b3 \<le> a1)"

section \<open>Properties of the intersection-over-union\<close>

lemma interArea_commute: "interArea a b = interArea b a"
  by (cases a, cases b) (simp add: interArea_def max.commute min.commute)

lemma boxArea_pos: "proper_box b \<Longrightarrow> 0 < boxArea b"
  by (cases b) (simp add: proper_box_def boxArea_def)

lemma interArea_self: "proper_box b \<Longrightarrow> interArea b b = boxArea b"
  by (cases b) (simp add: proper_box_def boxArea_def interArea_def max_def)

lemma interArea_nonneg: "0 \<le> interArea a b"
  by (cases a, cases b) (simp add: interArea_def Let_def)

lemma interArea_le_left: "proper_box a \<Longrightarrow> interArea a b \<le> boxArea a"
proof (cases a, cases b)
  fix a0 a1 a2 a3 b0 b1 b2 b3
  assume p: "proper_box a" and a: "a = (a0, a1, a2, a3)" and b: "b = (b0, b1, b2, b3)"
  have w: "max 0 (min a2 b2 - max a0 b0) \<le> a2 - a0" and w0: "0 \<le> max 0 (min a2 b2 - max a0 b0)"
    using p a by (auto simp: proper_box_def)
  have h: "max 0 (min a3 b3 - max a1 b1) \<le> a3 - a1" and h0: "0 \<le> max 0 (min a3 b3 - max a1 b1)"
    using p a by (auto simp: proper_box_def)
  have "max 0 (min a2 b2 - max a0 b0) * max 0 (min a3 b3 - max a1 b1) \<le> (a2 - a0) * (a3 - a1)"
    using w w0 h h0 by (intro mult_mono) auto
  then show ?thesis
    using a b by (simp add: interArea_def boxArea_def)
qed

lemma union_area_pos:
  assumes "proper_box a" "proper_box b"
  shows "0 < boxArea a + boxArea b - interArea a b"
  using interArea_le_left [OF assms(1), of b] boxArea_pos [OF assms(2)] by linarith

lemma interArea_disjoint: "non_overlapping a b \<Longrightarrow> interArea a b = 0"
  by (cases a, cases b) (auto simp: non_overlapping_def interArea_def Let_def max_def min_def)

text \<open>
  C6.  For all axis-aligned boxes \<open>A\<close> and \<open>B\<close> given by their upper left and lower
  right corners, of positive width and height and hence of positive area, the
  default intersection-over-union is symmetric, is \<open>1\<close> on \<open>(A, A)\<close>, and is \<open>0\<close> on
  boxes that do not overlap; with the \<^verbatim>\<open>evalCol\<close> flag the result is the
  intersection area divided by the area of \<open>A\<close> alone.  None of the calls raises.
\<close>

theorem iou_properties:
  assumes "proper_box A" and "proper_box B"
  shows "bb_intersection_over_union A B False = bb_intersection_over_union B A False
       \<and> bb_intersection_over_union A A False = Inr 1
       \<and> (if non_overlapping A B then bb_intersection_over_union A B False = Inr 0
          else bb_intersection_over_union A B False
             = Inr (interArea A B / (boxArea A + boxArea B - interArea A B)))
       \<and> bb_intersection_over_union A B True = Inr (interArea A B / boxArea A)"
proof -
  have sym: "bb_intersection_over_union A B False = bb_intersection_over_union B A False"
    by (simp add: bb_intersection_over_union_def interArea_commute [of B A] add.commute)
  have self: "bb_intersection_over_union A A False = Inr 1"
    using boxArea_pos [OF assms(1)]
    by (simp add: bb_intersection_over_union_def interArea_self [OF assms(1)])
  have u: "boxArea A + boxArea B - interArea A B \<noteq> 0"
    using union_area_pos [OF assms] by simp
  have dis: "non_overlapping A B \<Longrightarrow> bb_intersection_over_union A B False = Inr 0"
    using u by (simp add: bb_intersection_over_union_def interArea_disjoint)
  have gen: "bb_intersection_over_union A B False
             = Inr (interArea A B / (boxArea A + boxArea B - interArea A B))"
    using u by (simp add: bb_intersection_over_union_def)
  have col: "bb_intersection_over_union A B True = Inr (interArea A B / boxArea A)"
    using boxArea_pos [OF assms(1)] by (simp add: bb_intersection_over_union_def)
  show ?thesis using sym self dis gen col by simp
qed

theorem iou_properties_witness:
  "proper_box (0, 0, 2, 2) \<and> proper_box (1, 1, 3, 3) \<and> \<not> non_overlapping (0, 0, 2, 2) (1, 1, 3, 3)
   \<and> bb_intersection_over_union (0, 0, 2, 2) (1, 1, 3, 3) False = Inr (1 / 7)
   \<and> bb_intersection_over_union (1, 1, 3, 3) (0, 0, 2, 2) False = Inr (1 / 7)
   \<and> bb_intersection_over_union (0, 0, 2, 2) (0, 0, 2, 2) False = Inr 1
   \<and> bb_intersection_over_union (0, 0, 2, 2) (1, 1, 3, 3) True = Inr (1 / 4)"
proof -
  have a: "proper_box (0, 0, 2, 2)" and b: "proper_box (1, 1, 3, 3)"
    by (simp_all add: proper_box_def)
  have n: "\<not> non_overlapping (0, 0, 2, 2) (1, 1, 3, 3)"
    by (simp add: non_overlapping_def)
  have i: "interArea (0, 0, 2, 2) (1, 1, 3, 3) = 1"
    by (simp add: interArea_def)
  note t = iou_properties [OF a b]
  have ab: "bb_intersection_over_union (0, 0, 2, 2) (1, 1, 3, 3) False = Inr (1 / 7)"
    using t [THEN conjunct2, THEN conjunct2, THEN conjunct1] n i by (simp add: boxArea_def)
  have ba: "bb_intersection_over_union (1, 1, 3, 3) (0, 0, 2, 2) False = Inr (1 / 7)"
    using t [THEN conjunct1] ab by simp
  have aa: "bb_intersection_over_union (0, 0, 2, 2) (0, 0, 2, 2) False = Inr 1"
    using t [THEN conjunct2, THEN conjunct1] .
  have col: "bb_intersection_over_union (0, 0, 2, 2) (1, 1, 3, 3) True = Inr (1 / 4)"
    using t [THEN conjunct2, THEN conjunct2, THEN conjunct2] i by (simp add: boxArea_def)
  show ?thesis
    using a b n ab ba aa col by blast
qed

section \<open>\<^verbatim>\<open>FaceProcessor.detect_faces\<close>\<close>

text \<open>
  What the external detector hands back for one face: the dictionary entries the
  loop reads.  An absent key is \<open>None\<close>.
\<close>

record face =
  facial_area :: "string \<rightharpoonup> rat"
  confidence :: "rat option"

text \<open>
  The outcome of \<^verbatim>\<open>DeepFace.extract_faces\<close> on one frame: it raises, it returns
  a list of faces, or it returns something that is not a list.
\<close>

datatype extract_result = Raised | Faces "face list" | NotAList

record detection =
  frame :: int
  bbox :: box
  conf :: rat

text \<open>The loop \<^verbatim>\<open>for face in faces\<close> with its three \<^verbatim>\<open>continue\<close> guards.\<close>

fun frame_faces :: "int \<Rightarrow> face list \<Rightarrow> detection list" where
  "frame_faces fidx [] = []"
| "frame_faces fidx (face # faces) =
     (case (facial_area face ''x'', facial_area face ''y'',
            facial_area face ''w'', facial_area face ''h'') of
        (Some x, Some y, Some w, Some h) \<Rightarrow>
          (case confidence face of
             None \<Rightarrow> frame_faces fidx faces
           | Some c \<Rightarrow>
               if c < 1 / 2 then frame_faces fidx faces
               else if w \<le> 0 \<or> h \<le> 0 then frame_faces fidx faces
               else \<lparr>frame = fidx, bbox = (x, y, x + w, y + h), conf = c\<rparr>
                      # frame_faces fidx faces)
      | _ \<Rightarrow> frame_faces fidx faces)"

text \<open>
  The loop over the sorted frame files.  The second component collects the frames
  whose failure was printed.  In the \<^verbatim>\<open>except\<close> branch the \<^verbatim>\<open>continue\<close> comes before
  \<^verbatim>\<open>detections.append(frame_detections)\<close>, so nothing is appended for that frame.
\<close>

fun detect_loop :: "nat \<Rightarrow> extract_result list \<Rightarrow> detection list list \<times> nat list" where
  "detect_loop fidx [] = ([], [])"
| "detect_loop fidx (r # rs) =
     (case detect_loop (Suc fidx) rs of (detections, printed) \<Rightarrow>
        (case r of
           Raised \<Rightarrow> (detections, fidx # printed)
         | Faces faces \<Rightarrow> (frame_faces (int fidx) faces # detections, printed)
         | NotAList \<Rightarrow> ([] # detections, printed)))"

definition detect_faces :: "extract_result list \<Rightarrow> detection list list \<times> nat list" where
  "detect_faces results = detect_loop 0 results"

lemma frame_faces_valid:
  "d \<in> set (frame_faces fidx faces) \<Longrightarrow> frame d = fidx \<and> 1 / 2 \<le> conf d \<and> proper_box (bbox d)"
  by (induction faces)
    (auto simp: proper_box_def split: option.splits if_splits)

lemma detect_loop_valid:
  "d \<in> set (concat (fst (detect_loop fidx rs))) \<Longrightarrow> 1 / 2 \<le> conf d \<and> proper_box (bbox d)"
proof (induction rs arbitrary: fidx)
  case Nil
  then show ?case by simp
next
  case (Cons r rs)
  obtain a b where ab: "detect_loop (Suc fidx) rs = (a, b)"
    by (cases "detect_loop (Suc fidx) rs")
  have ih: "d \<in> set (concat a) \<Longrightarrow> 1 / 2 \<le> conf d \<and> proper_box (bbox d)"
    using Cons.IH [of "Suc fidx"] ab by simp
  from Cons.prems ab
  have "d \<in> set (concat a) \<or> (\<exists>faces. r = Faces faces \<and> d \<in> set (frame_faces (int fidx) faces))"
    by (cases r) auto
  then show ?case
    using ih frame_faces_valid by blast
qed

lemma detect_loop_length:
  "length (fst (detect_loop fidx rs)) = length (filter (\<lambda>r. r \<noteq> Raised) rs)"
proof (induction rs arbitrary: fidx)
  case Nil
  then show ?case by simp
next
  case (Cons r rs)
  have "length (fst (detect_loop (Suc fidx) rs)) = length (filter (\<lambda>r. r \<noteq> Raised) rs)"
    by (rule Cons.IH)
  then show ?case
    by (cases r; cases "detect_loop (Suc fidx) rs") auto
qed

text \<open>
  C10.  Every detection the detection stage emits has confidence at least \<open>0.5\<close> and
  strictly positive width and height; for any two emitted detections the denominator
  of the intersection-over-union is positive, so the call returns a value.
\<close>

theorem detections_well_formed:
  assumes "d \<in> set (concat (fst (detect_faces results)))"
    and "d' \<in> set (concat (fst (detect_faces results)))"
  shows "1 / 2 \<le> conf d
       \<and> (case bbox d of (x0, y0, x1, y1) \<Rightarrow> 0 < x1 - x0 \<and> 0 < y1 - y0)
       \<and> 0 < boxArea (bbox d) + boxArea (bbox d') - interArea (bbox d) (bbox d')
       \<and> bb_intersection_over_union (bbox d) (bbox d') False
           = Inr (interArea (bbox d) (bbox d')
                  / (boxArea (bbox d) + boxArea (bbox d') - interArea (bbox d) (bbox d')))"
proof -
  have d: "1 / 2 \<le> conf d \<and> proper_box (bbox d)"
    using assms(1) unfolding detect_faces_def by (rule detect_loop_valid)
  have d': "proper_box (bbox d')"
    using assms(2) detect_loop_valid unfolding detect_faces_def by blast
  have pos: "0 < boxArea (bbox d) + boxArea (bbox d') - interArea (bbox d) (bbox d')"
    using union_area_pos [of "bbox d" "bbox d'"] d d' by blast
  have shape: "case bbox d of (x0, y0, x1, y1) \<Rightarrow> 0 < x1 - x0 \<and> 0 < y1 - y0"
    using d by (cases "bbox d") (simp add: proper_box_def)
  show ?thesis
    using d pos shape by (simp add: bb_intersection_over_union_def)
qed

definition example_face :: "rat \<Rightarrow> rat \<Rightarrow> rat \<Rightarrow> rat \<Rightarrow> rat \<Rightarrow> face" where
  "example_face x y w h c =
     \<lparr>facial_area = [''x'' \<mapsto> x, ''y'' \<mapsto> y, ''w'' \<mapsto> w, ''h'' \<mapsto> h], confidence = Some c\<rparr>"

lemma detect_example:
  "detect_faces [Faces [example_face 10 10 20 20 (9 / 10), example_face 0 0 0 5 (9 / 10),
                        example_face 5 5 8 8 (2 / 5)]]
   = ([[\<lparr>frame = 0, bbox = (10, 10, 30, 30), conf = 9 / 10\<rparr>]], [])"
  by (simp add: detect_faces_def example_face_def)

theorem detections_well_formed_witness:
  "\<lparr>frame = 0, bbox = (10, 10, 30, 30), conf = 9 / 10\<rparr>
     \<in> set (concat (fst (detect_faces
          [Faces [example_face 10 10 20 20 (9 / 10), example_face 0 0 0 5 (9 / 10),
                  example_face 5 5 8 8 (2 / 5)]])))
   \<and> bb_intersection_over_union (10, 10, 30, 30) (10, 10, 30, 30) False = Inr 1"
proof -
  let ?d = "\<lparr>frame = 0, bbox = (10, 10, 30, 30), conf = 9 / 10\<rparr>"
  let ?rs = "[Faces [example_face 10 10 20 20 (9 / 10), example_face 0 0 0 5 (9 / 10),
                  example_face 5 5 8 8 (2 / 5)]]"
  have m: "?d \<in> set (concat (fst (detect_faces ?rs)))"
    by (simp add: detect_example)
  have "bb_intersection_over_union (bbox ?d) (bbox ?d) False
           = Inr (interArea (bbox ?d) (bbox ?d)
                  / (boxArea (bbox ?d) + boxArea (bbox ?d) - interArea (bbox ?d) (bbox ?d)))"
    using detections_well_formed [OF m m] by blast
  then have "bb_intersection_over_union (10, 10, 30, 30) (10, 10, 30, 30) False = Inr 1"
    by (simp add: interArea_def boxArea_def)
  then show ?thesis using m by blast
qed

text \<open>
  C2.  Three extracted frames, the detector raising on the second: the failure is
  printed for frame \<open>1\<close>, but no entry is appended for it.  The list has two entries
  for three frames, and entry \<open>1\<close> holds the detection of frame \<open>2\<close>.
\<close>

theorem detect_faces_drops_failed_frame:
  "detect_faces [Faces [example_face 10 10 20 20 (9 / 10)], Raised,
                 Faces [example_face 40 40 20 20 (4 / 5)]]
   = ([[\<lparr>frame = 0, bbox = (10, 10, 30, 30), conf = 9 / 10\<rparr>],
       [\<lparr>frame = 2, bbox = (40, 40, 60, 60), conf = 4 / 5\<rparr>]], [1])"
  by (simp add: detect_faces_def example_face_def)

section \<open>Python and numpy primitives used by the scorer and the renderer\<close>

text \<open>
  \<^verbatim>\<open>xs[start:stop]\<close> for arbitrary integers: a negative bound counts from the end,
  and both bounds are clamped to the list.
\<close>

definition py_slice :: "'a list \<Rightarrow> int \<Rightarrow> int \<Rightarrow> 'a list" where
  "py_slice xs start stop =
     (let n = int (length xs);
          lo = (if start < 0 then max (start + n) 0 else min start n);
          hi = (if stop < 0 then max (stop + n) 0 else min stop n)
      in take (nat (hi - lo)) (drop (nat lo) xs))"

text \<open>Python 3 \<^verbatim>\<open>round(x)\<close>: the nearest integer, a tie going to the even neighbour.\<close>

definition py_round :: "rat \<Rightarrow> int" where
  "py_round x =
     (let f = \<lfloor>x\<rfloor>; r = x - of_int f
      in if r < 1 / 2 then f else if 1 / 2 < r then f + 1 else if even f then f else f + 1)"

text \<open>
  A Python \<^verbatim>\<open>float\<close> is an IEEE binary64 number, here the rational it denotes.  Every
  arithmetic operation returns the binary64 number nearest to the exact result, a
  tie going to the even significand.  For a positive \<open>x\<close> below \<open>2^53\<close> the
  significand is found by doubling \<open>x\<close> until it reaches \<open>2^52\<close>, at most 1074 times
  (fewer significant bits remain for the subnormal numbers below \<open>2^-1022\<close>); a
  larger \<open>x\<close> is halved until it is below \<open>2^53\<close>.  Results of magnitude \<open>2^1024\<close> or
  more, where binary64 overflows, are outside the model.
\<close>

fun scale_up :: "nat \<Rightarrow> rat \<Rightarrow> rat \<times> nat" where
  "scale_up 0 x = (x, 0)"
| "scale_up (Suc fuel) x =
     (if 2 ^ 52 \<le> x then (x, 0)
      else (case scale_up fuel (2 * x) of (y, k) \<Rightarrow> (y, Suc k)))"

fun scale_down :: "nat \<Rightarrow> rat \<Rightarrow> rat \<times> nat" where
  "scale_down 0 x = (x, 0)"
| "scale_down (Suc fuel) x =
     (if x < 2 ^ 53 then (x, 0)
      else (case scale_down fuel (x / 2) of (y, k) \<Rightarrow> (y, Suc k)))"

definition double_round_pos :: "rat \<Rightarrow> rat" where
  "double_round_pos x =
     (if x < 2 ^ 53 then (case scale_up 1074 x of (y, k) \<Rightarrow> of_int (py_round y) / 2 ^ k)
      else (case scale_down 971 x of (y, k) \<Rightarrow> of_int (py_round y) * 2 ^ k))"

definition double_round :: "rat \<Rightarrow> rat" where
  "double_round x =
     (if x = 0 then 0 else if x < 0 then - double_round_pos (- x) else double_round_pos x)"

text \<open>\<^verbatim>\<open>a / b\<close> on two integers, and \<^verbatim>\<open>x * y\<close> and \<^verbatim>\<open>x / y\<close> on floats.\<close>

definition py_truediv :: "int \<Rightarrow> int \<Rightarrow> rat" where
  "py_truediv a b = double_round (of_int a / of_int b)"

definition float_mul :: "rat \<Rightarrow> rat \<Rightarrow> rat" where
  "float_mul x y = double_round (x * y)"

definition float_div :: "rat \<Rightarrow> rat \<Rightarrow> rat" where
  "float_div x y = double_round (x / y)"

text \<open>
  \<^verbatim>\<open>numpy.round(x, 1)\<close>: scale by ten, round to the nearest integer, scale back.  The
  scores, their mean and this rounding carry the floating-point precision of the
  external model's output; the embedding computes on them exactly.
\<close>

definition numpy_round1 :: "rat \<Rightarrow> rat" where
  "numpy_round1 x = of_int (py_round (x * 10)) / 10"

text \<open>\<^verbatim>\<open>numpy.mean\<close> of a one-dimensional array; the mean of no element is NaN (\<open>None\<close>).\<close>

definition numpy_mean :: "rat list \<Rightarrow> rat option" where
  "numpy_mean xs = (if xs = [] then None else Some (sum_list xs / of_nat (length xs)))"

text \<open>
  \<^verbatim>\<open>numpy.mean(numpy.array(rows), axis=0)\<close> for a non-empty list of rows: the column
  means when the rows have one length; rows of different lengths do not form an
  array (\<^verbatim>\<open>ValueError\<close>).  The loop that builds the rows always runs at least once.
\<close>

fun numpy_mean_axis0 :: "rat list list \<Rightarrow> py_error + rat list" where
  "numpy_mean_axis0 (row # rows) =
     (if \<exists>r \<in> set rows. length r \<noteq> length row then Inl ValueError
      else Inr (map (\<lambda>j. sum_list (map (\<lambda>r. r ! j) (row # rows)) / of_nat (length (row # rows)))
                  [0..<length row]))"

section \<open>Properties of the rounding functions\<close>

lemma py_round_near:
  "\<bar>of_int (py_round x) - x\<bar> \<le> 1 / 2
   \<and> (\<bar>of_int (py_round x) - x\<bar> = 1 / 2 \<longrightarrow> even (py_round x))"
proof -
  define f where "f = \<lfloor>x\<rfloor>"
  define r where "r = x - of_int f"
  have r0: "0 \<le> r" and r1: "r < 1"
    unfolding r_def f_def by linarith+
  have x: "x = of_int f + r"
    by (simp add: r_def)
  have pr: "py_round x
            = (if r < 1 / 2 then f else if 1 / 2 < r then f + 1 else if even f then f else f + 1)"
    unfolding py_round_def Let_def r_def f_def by (rule refl)
  consider "r < 1 / 2" | "1 / 2 < r" | "r = 1 / 2"
    by linarith
  then show ?thesis
  proof cases
    case 1
    with pr have "py_round x = f"
      by simp
    with 1 r0 x show ?thesis by simp
  next
    case 2
    with pr have "py_round x = f + 1"
      by simp
    with 2 r1 x show ?thesis by simp
  next
    case 3
    with pr have "py_round x = (if even f then f else f + 1)"
      by simp
    with 3 x show ?thesis by auto
  qed
qed

lemma py_round_eqI:
  assumes "\<bar>of_int n - x\<bar> < 1 / 2"
  shows "py_round x = n"
proof -
  from py_round_near [of x] have "\<bar>of_int (py_round x) - x\<bar> \<le> 1 / 2"
    by blast
  with assms have "\<bar>(of_int (py_round x) :: rat) - of_int n\<bar> < 1"
    by linarith
  then have "\<bar>py_round x - n\<bar> < 1"
    by (metis of_int_1 of_int_abs of_int_diff of_int_less_iff)
  then show ?thesis by simp
qed

lemma py_round_nonneg: "0 \<le> x \<Longrightarrow> 0 \<le> py_round x"
  by (simp add: py_round_def Let_def)

lemma py_round_le_half:
  assumes "x < of_int n + 1 / 2"
  shows "py_round x \<le> n"
proof -
  from py_round_near [of x] have "of_int (py_round x) \<le> x + 1 / 2"
    by linarith
  with assms have "(of_int (py_round x) :: rat) < of_int (n + 1)"
    by simp
  then have "py_round x < n + 1"
    by (simp only: of_int_less_iff)
  then show ?thesis by simp
qed

lemma scale_up_spec:
  "scale_up n x = (y, k) \<Longrightarrow> 0 < x \<Longrightarrow>
   y = x * 2 ^ k \<and> (x < 2 ^ 53 \<longrightarrow> y < 2 ^ 53) \<and> (2 ^ 52 \<le> x * 2 ^ n \<longrightarrow> 2 ^ 52 \<le> y)"
proof (induction n arbitrary: x y k)
  case 0
  then show ?case by simp
next
  case (Suc n)
  show ?case
  proof (cases "2 ^ 52 \<le> x")
    case True
    with Suc.prems show ?thesis by simp
  next
    case False
    with Suc.prems(1) obtain j where run: "scale_up n (2 * x) = (y, j)" and k: "k = Suc j"
      by (auto split: prod.splits)
    from Suc.prems(2) have "0 < 2 * x"
      by simp
    from Suc.IH [OF run this]
    have a: "y = 2 * x * 2 ^ j" and b: "2 * x < 2 ^ 53 \<longrightarrow> y < 2 ^ 53"
      and c: "2 ^ 52 \<le> 2 * x * 2 ^ n \<longrightarrow> 2 ^ 52 \<le> y"
      by blast+
    have 1: "y = x * 2 ^ k"
      using a k by simp
    from False have "2 * x < 2 ^ 53"
      by simp
    with b have 2: "y < 2 ^ 53"
      by blast
    have e: "x * 2 ^ Suc n = 2 * x * 2 ^ n"
      by simp
    have 3: "2 ^ 52 \<le> x * 2 ^ Suc n \<longrightarrow> 2 ^ 52 \<le> y"
      unfolding e using c .
    from 1 2 3 show ?thesis
      by blast
  qed
qed

lemma double_round_pos_value:
  assumes "0 < x" and "x < 2 ^ 53"
  obtains y k where "double_round x = of_int (py_round y) / 2 ^ k" and "y = x * 2 ^ k"
    and "2 ^ 52 \<le> x * 2 ^ 1074 \<longrightarrow> 2 ^ 52 \<le> y"
proof -
  obtain y k where s: "scale_up 1074 x = (y, k)"
    by (cases "scale_up 1074 x")
  from scale_up_spec [OF s assms(1)]
  have "y = x * 2 ^ k" and "2 ^ 52 \<le> x * 2 ^ 1074 \<longrightarrow> 2 ^ 52 \<le> y"
    by blast+
  moreover from assms s have "double_round x = of_int (py_round y) / 2 ^ k"
    by (simp add: double_round_def double_round_pos_def)
  ultimately show thesis
    using that by blast
qed

lemma double_round_nonneg:
  assumes "0 \<le> x" and "x < 2 ^ 53"
  shows "0 \<le> double_round x"
proof (cases "x = 0")
  case True
  then show ?thesis by (simp add: double_round_def)
next
  case False
  with assms have "0 < x" by simp
  from double_round_pos_value [OF this assms(2)] obtain y k where
    v: "double_round x = of_int (py_round y) / 2 ^ k" and y: "y = x * 2 ^ k"
    by blast
  from y \<open>0 < x\<close> have "0 \<le> y" by simp
  then have "0 \<le> py_round y" by (rule py_round_nonneg)
  with v show ?thesis by simp
qed

lemma double_round_error:
  assumes "0 < x" and "x < 2 ^ 53" and "2 ^ 52 \<le> x * 2 ^ 1074"
  shows "\<bar>double_round x - x\<bar> \<le> x / 2 ^ 53"
proof -
  from double_round_pos_value [OF assms(1,2)] assms(3) obtain y k where
    v: "double_round x = of_int (py_round y) / 2 ^ k" and y: "y = x * 2 ^ k" and big: "2 ^ 52 \<le> y"
    by blast
  define P :: rat where "P = 2 ^ k"
  have P: "0 < P" by (simp add: P_def)
  have x: "x = y / P"
    using y P by (simp add: P_def)
  have "double_round x - x = (of_int (py_round y) - y) / P"
    using v x by (simp add: P_def diff_divide_distrib)
  then have "\<bar>double_round x - x\<bar> = \<bar>of_int (py_round y) - y\<bar> / P"
    using P by simp
  also have "\<dots> \<le> (1 / 2) / P"
    using py_round_near [of y] P by (intro divide_right_mono) auto
  also have "\<dots> \<le> (y / 2 ^ 53) / P"
    using big P by (intro divide_right_mono) auto
  also have "\<dots> = x / 2 ^ 53"
    using x by simp
  finally show ?thesis .
qed

lemma scale_up_exact:
  "0 < x \<Longrightarrow> 2 ^ 52 \<le> x * 2 ^ k \<Longrightarrow> x * 2 ^ k < 2 ^ 53 \<Longrightarrow> k \<le> n \<Longrightarrow>
   scale_up n x = (x * 2 ^ k, k)"
proof (induction k arbitrary: x n)
  case 0
  then show ?case by (cases n) simp_all
next
  case (Suc k)
  from Suc.prems(4) obtain m where n: "n = Suc m" and km: "k \<le> m"
    by (cases n) auto
  have "(2::rat) \<le> 2 ^ Suc k"
    by simp
  with Suc.prems(1) have "x * 2 \<le> x * 2 ^ Suc k"
    by (intro mult_left_mono) auto
  with Suc.prems(3) have small: "\<not> 2 ^ 52 \<le> x"
    by simp
  from Suc.prems have "scale_up m (2 * x) = (2 * x * 2 ^ k, k)"
    by (intro Suc.IH km) (simp_all add: mult.assoc mult.left_commute)
  with small n show ?case
    by (simp add: mult.assoc mult.left_commute)
qed

text \<open>
  How a binary64 result is computed by hand: the exponent \<open>k\<close> that brings \<open>x\<close> into
  \<open>[2^52, 2^53)\<close> and the integer \<open>R\<close> nearest to the scaled value.
\<close>

lemma double_round_eval:
  assumes "0 < x" and "k \<le> 1074" and "2 ^ 52 \<le> x * 2 ^ k" and "x * 2 ^ k < 2 ^ 53"
    and "\<bar>of_int R - x * 2 ^ k\<bar> < 1 / 2"
  shows "double_round x = of_int R / 2 ^ k"
proof -
  have "x * 1 \<le> x * 2 ^ k"
    using assms(1) by (intro mult_left_mono) auto
  with assms(4) have small: "x < 2 ^ 53"
    by simp
  from scale_up_exact [OF assms(1,3,4,2)] py_round_eqI [OF assms(5)] small assms(1)
  show ?thesis
    by (simp add: double_round_def double_round_pos_def)
qed

lemma scale_down_pos: "scale_down n x = (y, k) \<Longrightarrow> 0 < x \<Longrightarrow> 0 < y"
proof (induction n arbitrary: x y k)
  case 0
  then show ?case by simp
next
  case (Suc n)
  show ?case
  proof (cases "x < 2 ^ 53")
    case True
    with Suc.prems show ?thesis by simp
  next
    case False
    with Suc.prems(1) obtain j where run: "scale_down n (x / 2) = (y, j)"
      by (auto split: prod.splits)
    from Suc.prems(2) have "0 < x / 2"
      by simp
    from Suc.IH [OF run this] show ?thesis .
  qed
qed

lemma double_round_nonneg_all:
  assumes "0 \<le> x"
  shows "0 \<le> double_round x"
proof (cases "x < 2 ^ 53")
  case True
  with assms show ?thesis by (rule double_round_nonneg)
next
  case False
  then have "(2::rat) ^ 53 \<le> x"
    by simp
  moreover have "(0::rat) < 2 ^ 53"
    by simp
  ultimately have pos: "0 < x"
    by (rule less_le_trans [rotated])
  obtain y k where s: "scale_down 971 x = (y, k)"
    by (cases "scale_down 971 x")
  from scale_down_pos [OF s pos] have "0 \<le> py_round y"
    by (intro py_round_nonneg) simp
  with False pos s show ?thesis
    by (simp add: double_round_def double_round_pos_def)
qed

lemma double_round_bounds:
  assumes "1 / 200 \<le> x" and "x < 2 ^ 52"
  shows "double_round x \<le> x + x / 2 ^ 53" and "x - x / 2 ^ 53 \<le> double_round x"
proof -
  have "(2::rat) ^ 52 \<le> 1 / 200 * 2 ^ 1074"
    by simp
  also have "\<dots> \<le> x * 2 ^ 1074"
    using assms(1) by (intro mult_right_mono) simp_all
  finally have range: "2 ^ 52 \<le> x * 2 ^ 1074" .
  from assms have "0 < x" and "x < 2 ^ 53"
    by simp_all
  from double_round_error [OF this range]
  show "double_round x \<le> x + x / 2 ^ 53" and "x - x / 2 ^ 53 \<le> double_round x"
    by linarith+
qed

text \<open>
  A product that exceeds a count \<open>n\<close> below \<open>2^50\<close> by no more than one rounding error
  is rounded to an integer that is at most \<open>n\<close>.
\<close>

lemma kept_at_most:
  fixes p :: rat and n :: nat
  assumes low: "p = 0 \<or> 1 / 200 \<le> p" and up: "p \<le> of_nat n + of_nat n / 2 ^ 53"
    and n: "n < 2 ^ 50"
  shows "py_round (double_round p) \<le> int n"
proof (cases "p = 0")
  case True
  then show ?thesis
    by (simp add: double_round_def py_round_def)
next
  case False
  with low have l: "1 / 200 \<le> p"
    by simp
  from n have N: "(of_nat n :: rat) < 2 ^ 50"
    by (metis of_nat_less_iff of_nat_numeral of_nat_power)
  with up have "p < 2 ^ 52"
    by simp
  from double_round_bounds(1) [OF l this] have "double_round p \<le> p + p / 2 ^ 53" .
  with up N have "double_round p < of_int (int n) + 1 / 2"
    by simp
  then show ?thesis
    by (rule py_round_le_half)
qed

lemma py_slice_prefix: "0 \<le> k \<Longrightarrow> py_slice xs 0 k = take (nat k) xs"
  by (simp add: py_slice_def Let_def min_def)

lemma common_duration_bounds:
  fixes a v :: nat
  defines "d \<equiv> min (py_truediv (int a) 100) (py_truediv (int v) 25)"
  assumes v: "0 < v" and a50: "a < 2 ^ 50" and v50: "v < 2 ^ 50"
  shows "(d * 100 = 0 \<or> 1 / 200 \<le> d * 100) \<and> d * 100 \<le> of_nat a + of_nat a / 2 ^ 53
       \<and> (d * 25 = 0 \<or> 1 / 200 \<le> d * 25) \<and> d * 25 \<le> of_nat v + of_nat v / 2 ^ 53"
proof -
  define A :: rat where "A = of_nat a / 100"
  define V :: rat where "V = of_nat v / 25"
  have d: "d = min (double_round A) (double_round V)"
    by (simp add: d_def py_truediv_def A_def V_def)
  from a50 have "(of_nat a :: rat) < 2 ^ 50"
    by (metis of_nat_less_iff of_nat_numeral of_nat_power)
  then have A52: "A < 2 ^ 52"
    by (simp add: A_def)
  from v50 have "(of_nat v :: rat) < 2 ^ 50"
    by (metis of_nat_less_iff of_nat_numeral of_nat_power)
  then have V52: "V < 2 ^ 52"
    by (simp add: V_def)
  from v have "(1::rat) \<le> of_nat v"
    by simp
  then have Vl25: "1 / 25 \<le> V"
    by (simp add: V_def)
  then have Vl: "1 / 200 \<le> V"
    by simp
  note Vb = double_round_bounds [OF Vl V52]
  show ?thesis
  proof (cases "a = 0")
    case True
    then have "double_round A = 0"
      by (simp add: A_def double_round_def)
    moreover have "0 \<le> double_round V"
      using Vb(2) Vl by simp
    ultimately have "d = 0"
      by (simp add: d)
    then show ?thesis
      by simp
  next
    case False
    then have "(1::rat) \<le> of_nat a"
      by simp
    then have Al: "1 / 100 \<le> A"
      by (simp add: A_def)
    then have "1 / 200 \<le> A"
      by simp
    note Ab = double_round_bounds [OF this A52]
    have upA: "d \<le> A + A / 2 ^ 53" and upV: "d \<le> V + V / 2 ^ 53"
      using Ab(1) Vb(1) by (simp_all add: d)
    have "1 / 100 - 1 / 100 / 2 ^ 53 \<le> A - A / 2 ^ 53"
      using Al by simp
    moreover have "1 / 100 - 1 / 100 / 2 ^ 53 \<le> V - V / 2 ^ 53"
      using Vl25 by simp
    ultimately have low: "1 / 100 - 1 / 100 / 2 ^ 53 \<le> d"
      using Ab(2) Vb(2) by (simp add: d)
    have "1 / 200 \<le> d * 100" and "1 / 200 \<le> d * 25"
      using low by simp_all
    moreover have "d * 100 \<le> of_nat a + of_nat a / 2 ^ 53"
      using upA by (simp add: A_def)
    moreover have "d * 25 \<le> of_nat v + of_nat v / 2 ^ 53"
      using upV by (simp add: V_def)
    ultimately show ?thesis
      by blast
  qed
qed

section \<open>\<^verbatim>\<open>ActiveSpeakerDetector.evaluate_network\<close>, one track\<close>

text \<open>
  The external model is a parameter: the four-stage forward path followed by the
  scoring head, from one audio window and one video window to the scores of that
  window.
\<close>

type_synonym ('a, 'v) scorer = "'a list \<Rightarrow> 'v list \<Rightarrow> rat list"

text \<open>
  Lines 511 to 516: the common duration in seconds and the two truncations, in the
  arithmetic of Python floats.  A track without video frames gives a one-dimensional
  empty array, which the three-index slice of line 516 cannot index.
\<close>

definition align_features :: "'a list \<Rightarrow> 'v list \<Rightarrow> py_error + rat \<times> 'a list \<times> 'v list" where
  "align_features audio_feature video_feature =
     (let length_s = min (py_truediv (int (length audio_feature)) 100)
                         (py_truediv (int (length video_feature)) 25);
          audio = py_slice audio_feature 0 (py_round (float_mul length_s 100))
      in if video_feature = [] then Inl IndexError
         else Inr (length_s, audio, py_slice video_feature 0 (py_round (float_mul length_s 25))))"

text \<open>One pass of the loop \<^verbatim>\<open>for duration in duration_set\<close>: the windows of one duration.\<close>

definition score_pass :: "('a, 'v) scorer \<Rightarrow> rat \<Rightarrow> 'a list \<Rightarrow> 'v list \<Rightarrow> nat \<Rightarrow> rat list" where
  "score_pass model length_s audio_feature video_feature duration =
     (let batch_size = nat \<lceil>float_div length_s (of_nat duration)\<rceil>
      in concat (map (\<lambda>i. model
            (py_slice audio_feature (int (i * duration * 100)) (int ((i + 1) * duration * 100)))
            (py_slice video_feature (int (i * duration * 25)) (int ((i + 1) * duration * 25))))
          [0..<batch_size]))"

text \<open>
  The body of the loop over the files, for the durations in the order the iteration
  yields them.
\<close>

definition track_scores :: "('a, 'v) scorer \<Rightarrow> nat list \<Rightarrow> 'a list \<Rightarrow> 'v list \<Rightarrow> py_error + rat list" where
  "track_scores model durations audio_feature video_feature =
     (case align_features audio_feature video_feature of
        Inl e \<Rightarrow> Inl e
      | Inr (length_s, audio, video) \<Rightarrow>
          (case numpy_mean_axis0 (map (score_pass model length_s audio video) durations) of
             Inl e \<Rightarrow> Inl e
           | Inr means \<Rightarrow> Inr (map numpy_round1 means)))"

text \<open>
  Line 484 writes the durations between braces: a Python set display.  A set holds
  each value once, as the set of HOL does; iterating over it yields each distinct
  duration once.
\<close>

definition duration_set :: "nat set" where
  "duration_set = {1, 1, 1, 2, 2, 2, 3, 3, 4, 5, 6}"

definition evaluate_network_track :: "('a, 'v) scorer \<Rightarrow> 'a list \<Rightarrow> 'v list \<Rightarrow> py_error + rat list" where
  "evaluate_network_track model audio_feature video_feature =
     track_scores model (sorted_list_of_set duration_set) audio_feature video_feature"

text \<open>
  The scorer as the specification words it: one pass per element of the multiset of
  durations, eleven passes.
\<close>

definition spec_duration_multiset :: "nat list" where
  "spec_duration_multiset = [1, 1, 1, 2, 2, 2, 3, 3, 4, 5, 6]"

definition spec_multiscale_scores :: "('a, 'v) scorer \<Rightarrow> 'a list \<Rightarrow> 'v list \<Rightarrow> py_error + rat list" where
  "spec_multiscale_scores model audio_feature video_feature =
     track_scores model spec_duration_multiset audio_feature video_feature"

text \<open>A deterministic stand-in for the model: every frame of a window scores the window's length.\<close>

definition window_length_scorer :: "(unit, unit) scorer" where
  "window_length_scorer a v = replicate (length v) (of_nat (length v))"

lemma durations_iterated: "sorted_list_of_set duration_set = [1, 2, 3, 4, 5, 6]"
  by code_simp

lemma numpy_mean_axis0_replicate:
  assumes "cs \<noteq> []"
  shows "numpy_mean_axis0 (map (replicate n) cs)
         = Inr (replicate n (sum_list cs / of_nat (length cs)))"
proof -
  obtain c cs' where cs: "cs = c # cs'"
    using assms by (cases cs) auto
  have col: "map (\<lambda>r. r ! j) (map (replicate n) cs) = cs" if "j < n" for j
    using that by (induction cs) auto
  have "map (\<lambda>j. sum_list (map (\<lambda>r. r ! j) (map (replicate n) cs)) / of_nat (length cs)) [0..<n]
        = map (\<lambda>j. sum_list cs / of_nat (length cs)) [0..<n]"
    by (rule map_cong) (simp_all add: o_def)
  also have "\<dots> = replicate n (sum_list cs / of_nat (length cs))"
    by (simp add: map_replicate_const)
  finally show ?thesis
    by (simp add: cs)
qed

lemma align_example:
  "align_features (replicate 200 ()) (replicate 50 ())
   = Inr (2, replicate 200 (), replicate 50 ())"
proof -
  have a: "py_truediv 200 100 = 2"
    unfolding py_truediv_def
    by (rule double_round_eval [where k = 51 and R = 4503599627370496, THEN trans]) simp_all
  have v: "py_truediv 50 25 = 2"
    unfolding py_truediv_def
    by (rule double_round_eval [where k = 51 and R = 4503599627370496, THEN trans]) simp_all
  have ma: "float_mul 2 100 = 200"
    unfolding float_mul_def
    by (rule double_round_eval [where k = 45 and R = 7036874417766400, THEN trans]) simp_all
  have mv: "float_mul 2 25 = 50"
    unfolding float_mul_def
    by (rule double_round_eval [where k = 47 and R = 7036874417766400, THEN trans]) simp_all
  have r: "py_round 200 = 200" "py_round 50 = 50"
    by (rule py_round_eqI, simp)+
  show ?thesis
    by (simp add: align_features_def a v ma mv r py_slice_def)
qed

lemma batch_size_1: "nat \<lceil>float_div 2 (of_nat (Suc 0))\<rceil> = 2"
proof -
  have "float_div 2 (of_nat (Suc 0)) = 2"
    unfolding float_div_def
    by (rule double_round_eval [where k = 51 and R = 4503599627370496, THEN trans]) simp_all
  then show ?thesis by simp
qed

lemma batch_size_long:
  assumes "2 \<le> d" and "d \<le> 6"
  shows "nat \<lceil>float_div 2 (of_nat d)\<rceil> = 1"
proof (cases "d = 2")
  case True
  have "float_div 2 (of_nat 2) = 1"
    unfolding float_div_def
    by (rule double_round_eval [where k = 52 and R = 4503599627370496, THEN trans]) simp_all
  with True show ?thesis by simp
next
  case False
  with assms have d: "3 \<le> d"
    by simp
  define x :: rat where "x = 2 / of_nat d"
  from d have "(3::rat) \<le> of_nat d"
    by (metis of_nat_le_iff of_nat_numeral)
  moreover from assms(2) have "(of_nat d :: rat) \<le> 6"
    by (metis of_nat_le_iff of_nat_numeral)
  ultimately have lo: "1 / 3 \<le> x" and hi: "x \<le> 2 / 3"
    by (simp_all add: x_def field_simps)
  from lo have "1 / 200 \<le> x"
    by simp
  moreover from hi have "x < 2 ^ 52"
    by simp
  ultimately have "double_round x \<le> x + x / 2 ^ 53" and "x - x / 2 ^ 53 \<le> double_round x"
    by (rule double_round_bounds)+
  with lo hi have "0 < double_round x" and "double_round x \<le> 1"
    by simp_all
  then have "\<lceil>double_round x\<rceil> = 1"
    by (simp add: ceiling_eq_iff)
  then show ?thesis
    by (simp add: float_div_def x_def)
qed

lemma pass_1:
  "score_pass window_length_scorer 2 (replicate 200 ()) (replicate 50 ()) (Suc 0) = replicate 50 25"
proof -
  have "[0..<nat \<lceil>float_div 2 (of_nat (Suc 0))\<rceil>] = [0, 1]"
    by (simp only: batch_size_1) (simp add: upt_rec)
  then show ?thesis
    by (simp add: score_pass_def py_slice_def window_length_scorer_def replicate_add [symmetric])
qed

lemma pass_long:
  assumes "2 \<le> d" and "d \<le> 6"
  shows "score_pass window_length_scorer 2 (replicate 200 ()) (replicate 50 ()) d = replicate 50 50"
proof -
  have "[0..<nat \<lceil>float_div 2 (of_nat d)\<rceil>] = [0]"
    by (simp add: batch_size_long [OF assms])
  moreover have "min (int d * 25) 50 = 50"
    using assms by simp
  ultimately show ?thesis
    by (simp add: score_pass_def py_slice_def window_length_scorer_def)
qed

lemma evaluate_example: "evaluate_network_track window_length_scorer (replicate 200 ()) (replicate 50 ())
  = Inr (replicate 50 (229 / 5))"
proof -
  have rows: "map (score_pass window_length_scorer 2 (replicate 200 ()) (replicate 50 ())) [1, 2, 3, 4, 5, 6]
              = [replicate 50 25, replicate 50 50, replicate 50 50, replicate 50 50,
                 replicate 50 50, replicate 50 50]"
    by (simp add: pass_1 pass_long)
  have m: "numpy_mean_axis0 [replicate 50 25, replicate 50 50, replicate 50 50, replicate 50 50,
                 replicate 50 50, replicate 50 50] = Inr (replicate 50 (275 / 6))"
    using numpy_mean_axis0_replicate [of "[25, 50, 50, 50, 50, 50]" 50]
    by (simp del: numpy_mean_axis0.simps)
  have r: "numpy_round1 (275 / 6) = 229 / 5"
    by code_simp
  show ?thesis
    unfolding evaluate_network_track_def track_scores_def durations_iterated align_example
      sum.case prod.case rows m
    by (simp add: r)
qed

lemma spec_example: "spec_multiscale_scores window_length_scorer (replicate 200 ()) (replicate 50 ())
  = Inr (replicate 50 (216 / 5))"
proof -
  have rows: "map (score_pass window_length_scorer 2 (replicate 200 ()) (replicate 50 ()))
                 [1, 1, 1, 2, 2, 2, 3, 3, 4, 5, 6]
              = [replicate 50 25, replicate 50 25, replicate 50 25, replicate 50 50,
                 replicate 50 50, replicate 50 50, replicate 50 50, replicate 50 50,
                 replicate 50 50, replicate 50 50, replicate 50 50]"
    by (simp add: pass_1 pass_long)
  have m: "numpy_mean_axis0 [replicate 50 25, replicate 50 25, replicate 50 25, replicate 50 50,
                 replicate 50 50, replicate 50 50, replicate 50 50, replicate 50 50,
                 replicate 50 50, replicate 50 50, replicate 50 50] = Inr (replicate 50 (475 / 11))"
    using numpy_mean_axis0_replicate [of "[25, 25, 25, 50, 50, 50, 50, 50, 50, 50, 50]" 50]
    by (simp del: numpy_mean_axis0.simps)
  have r: "numpy_round1 (475 / 11) = 216 / 5"
    by code_simp
  show ?thesis
    unfolding spec_multiscale_scores_def spec_duration_multiset_def track_scores_def align_example
      sum.case prod.case rows m
    by (simp add: r)
qed

section \<open>Properties of the alignment and of the ensemble\<close>

text \<open>
  Two tracks on which the double product is not the exact one: 218 audio rows with
  55 frames, where \<open>2.18 * 25\<close> is just above \<open>54.5\<close>, and 230 audio rows with 58
  frames, where \<open>2.3 * 25\<close> is just below \<open>57.5\<close>.
\<close>

lemma truediv_218: "py_truediv 218 100 = 4908923593833841 / 2251799813685248"
  unfolding py_truediv_def
  by (rule double_round_eval [where k = 51 and R = 4908923593833841, THEN trans]) simp_all

lemma truediv_55: "py_truediv 55 25 = 2476979795053773 / 1125899906842624"
  unfolding py_truediv_def
  by (rule double_round_eval [where k = 51 and R = 4953959590107546, THEN trans]) simp_all

lemma truediv_230: "py_truediv 230 100 = 2589569785738035 / 1125899906842624"
  unfolding py_truediv_def
  by (rule double_round_eval [where k = 51 and R = 5179139571476070, THEN trans]) simp_all

lemma truediv_58: "py_truediv 58 25 = 5224175567749775 / 2251799813685248"
  unfolding py_truediv_def
  by (rule double_round_eval [where k = 51 and R = 5224175567749775, THEN trans]) simp_all

lemma mul_218_100:
  "float_mul (4908923593833841 / 2251799813685248) 100 = 7670193115365377 / 35184372088832"
  unfolding float_mul_def
  by (rule double_round_eval [where k = 45 and R = 7670193115365377, THEN trans]) simp_all

lemma mul_218_25:
  "float_mul (4908923593833841 / 2251799813685248) 25 = 7670193115365377 / 140737488355328"
  unfolding float_mul_def
  by (rule double_round_eval [where k = 47 and R = 7670193115365377, THEN trans]) simp_all

lemma mul_230_100:
  "float_mul (2589569785738035 / 1125899906842624) 100 = 8092405580431359 / 35184372088832"
  unfolding float_mul_def
  by (rule double_round_eval [where k = 45 and R = 8092405580431359, THEN trans]) simp_all

lemma mul_230_25:
  "float_mul (2589569785738035 / 1125899906842624) 25 = 8092405580431359 / 140737488355328"
  unfolding float_mul_def
  by (rule double_round_eval [where k = 47 and R = 8092405580431359, THEN trans]) simp_all

lemma align_218_55:
  "align_features (replicate 218 ()) (replicate 55 ())
   = Inr (4908923593833841 / 2251799813685248, replicate 218 (), replicate 55 ())"
proof -
  have d: "min (py_truediv 218 100) (py_truediv 55 25) = 4908923593833841 / 2251799813685248"
    by (simp add: truediv_218 truediv_55)
  have a: "py_round (7670193115365377 / 35184372088832) = 218"
    by (rule py_round_eqI) simp
  have v: "py_round (7670193115365377 / 140737488355328) = 55"
    by (rule py_round_eqI) simp
  show ?thesis
    by (simp add: align_features_def d mul_218_100 mul_218_25 a v py_slice_def)
qed

lemma align_230_58:
  "align_features (replicate 230 ()) (replicate 58 ())
   = Inr (2589569785738035 / 1125899906842624, replicate 230 (), replicate 57 ())"
proof -
  have d: "min (py_truediv 230 100) (py_truediv 58 25) = 2589569785738035 / 1125899906842624"
    by (simp add: truediv_230 truediv_58)
  have a: "py_round (8092405580431359 / 35184372088832) = 230"
    by (rule py_round_eqI) simp
  have v: "py_round (8092405580431359 / 140737488355328) = 57"
    by (rule py_round_eqI) simp
  show ?thesis
    by (simp add: align_features_def d mul_230_100 mul_230_25 a v py_slice_def)
qed

text \<open>
  C8, as the code has it.  For a video feature sequence that is not empty, the
  scorer computes \<open>d = min(audioLen / 100, videoLen / 25)\<close> in double precision and
  keeps the first \<open>na\<close> audio samples and the first \<open>nv\<close> video samples, where \<open>na\<close> and
  \<open>nv\<close> are the integers nearest to the doubles \<open>d * 100\<close> and \<open>d * 25\<close>, the even one
  on a tie.  For sequences of fewer than \<open>2^50\<close> samples neither sequence is shorter
  than that, so the truncated sequences have exactly \<open>na\<close> and \<open>nv\<close> samples.  With 218
  audio rows and 55 frames all 55 frames are kept; with 230 audio rows and 58 frames,
  57 frames are kept.
\<close>

theorem align_features_truncates:
  assumes "video_feature \<noteq> []"
  shows "(\<exists>d na nv.
            align_features audio_feature video_feature
            = Inr (d, take (nat na) audio_feature, take (nat nv) video_feature)
          \<and> d = min (double_round (of_nat (length audio_feature) / 100))
                    (double_round (of_nat (length video_feature) / 25))
          \<and> 0 \<le> na \<and> \<bar>of_int na - double_round (d * 100)\<bar> \<le> 1 / 2
          \<and> (\<bar>of_int na - double_round (d * 100)\<bar> = 1 / 2 \<longrightarrow> even na)
          \<and> 0 \<le> nv \<and> \<bar>of_int nv - double_round (d * 25)\<bar> \<le> 1 / 2
          \<and> (\<bar>of_int nv - double_round (d * 25)\<bar> = 1 / 2 \<longrightarrow> even nv)
          \<and> (length audio_feature < 2 ^ 50 \<and> length video_feature < 2 ^ 50 \<longrightarrow>
                int (length (take (nat na) audio_feature)) = na
              \<and> int (length (take (nat nv) video_feature)) = nv))
       \<and> align_features (replicate 218 ()) (replicate 55 ())
           = Inr (4908923593833841 / 2251799813685248, replicate 218 (), replicate 55 ())
       \<and> align_features (replicate 230 ()) (replicate 58 ())
           = Inr (2589569785738035 / 1125899906842624, replicate 230 (), replicate 57 ())"
proof -
  define a where "a = length audio_feature"
  define v where "v = length video_feature"
  define d where "d = min (py_truediv (int a) 100) (py_truediv (int v) 25)"
  define na where "na = py_round (float_mul d 100)"
  define nv where "nv = py_round (float_mul d 25)"
  have d': "d = min (double_round (of_nat a / 100)) (double_round (of_nat v / 25))"
    by (simp add: d_def py_truediv_def)
  have "0 \<le> double_round (of_nat a / 100)" and "0 \<le> double_round (of_nat v / 25)"
    by (rule double_round_nonneg_all, simp)+
  then have d0: "0 \<le> d"
    by (simp add: d')
  have na0: "0 \<le> na" and nv0: "0 \<le> nv"
    unfolding na_def nv_def float_mul_def using d0
    by (intro py_round_nonneg double_round_nonneg_all; simp)+
  have run: "align_features audio_feature video_feature
             = Inr (d, take (nat na) audio_feature, take (nat nv) video_feature)"
    using assms na0 nv0
    by (simp add: align_features_def Let_def d_def [symmetric] a_def [symmetric] v_def [symmetric]
        na_def [symmetric] nv_def [symmetric] py_slice_prefix)
  have near_a: "\<bar>of_int na - double_round (d * 100)\<bar> \<le> 1 / 2
              \<and> (\<bar>of_int na - double_round (d * 100)\<bar> = 1 / 2 \<longrightarrow> even na)"
    unfolding na_def float_mul_def by (rule py_round_near)
  have near_v: "\<bar>of_int nv - double_round (d * 25)\<bar> \<le> 1 / 2
              \<and> (\<bar>of_int nv - double_round (d * 25)\<bar> = 1 / 2 \<longrightarrow> even nv)"
    unfolding nv_def float_mul_def by (rule py_round_near)
  have exact: "int (length (take (nat na) audio_feature)) = na
             \<and> int (length (take (nat nv) video_feature)) = nv"
    if small: "length audio_feature < 2 ^ 50 \<and> length video_feature < 2 ^ 50"
  proof -
    from assms have vpos: "0 < v"
      by (simp add: v_def)
    from small have a50: "a < 2 ^ 50" and v50: "v < 2 ^ 50"
      by (simp_all add: a_def v_def)
    note b = common_duration_bounds [OF vpos a50 v50, folded d_def]
    from b have "na \<le> int a"
      unfolding na_def float_mul_def by (intro kept_at_most a50) blast+
    moreover from b have "nv \<le> int v"
      unfolding nv_def float_mul_def by (intro kept_at_most v50) blast+
    ultimately show ?thesis
      using na0 nv0 by (simp add: a_def v_def)
  qed
  from run d' na0 nv0 near_a near_v exact
  have "\<exists>d na nv.
            align_features audio_feature video_feature
            = Inr (d, take (nat na) audio_feature, take (nat nv) video_feature)
          \<and> d = min (double_round (of_nat (length audio_feature) / 100))
                    (double_round (of_nat (length video_feature) / 25))
          \<and> 0 \<le> na \<and> \<bar>of_int na - double_round (d * 100)\<bar> \<le> 1 / 2
          \<and> (\<bar>of_int na - double_round (d * 100)\<bar> = 1 / 2 \<longrightarrow> even na)
          \<and> 0 \<le> nv \<and> \<bar>of_int nv - double_round (d * 25)\<bar> \<le> 1 / 2
          \<and> (\<bar>of_int nv - double_round (d * 25)\<bar> = 1 / 2 \<longrightarrow> even nv)
          \<and> (length audio_feature < 2 ^ 50 \<and> length video_feature < 2 ^ 50 \<longrightarrow>
                int (length (take (nat na) audio_feature)) = na
              \<and> int (length (take (nat nv) video_feature)) = nv)"
    unfolding a_def v_def by blast
  with align_218_55 align_230_58 show ?thesis
    by blast
qed

theorem align_features_truncates_witness:
  "replicate 55 () \<noteq> []
   \<and> (\<exists>d na nv.
         align_features (replicate 218 ()) (replicate 55 ())
         = Inr (d, take (nat na) (replicate 218 ()), take (nat nv) (replicate 55 ()))
       \<and> d = 4908923593833841 / 2251799813685248 \<and> na = 218 \<and> nv = 55)"
proof -
  have ne: "replicate 55 () \<noteq> []"
    by simp
  note t = align_features_truncates [OF ne, of "replicate 218 ()"]
  from t obtain d na nv where
    run: "align_features (replicate 218 ()) (replicate 55 ())
          = Inr (d, take (nat na) (replicate 218 ()), take (nat nv) (replicate 55 ()))"
    and len: "length (replicate 218 ()) < 2 ^ 50 \<and> length (replicate 55 ()) < 2 ^ 50 \<longrightarrow>
                int (length (take (nat na) (replicate 218 ()))) = na
              \<and> int (length (take (nat nv) (replicate 55 ()))) = nv"
    by blast
  from t have val: "align_features (replicate 218 ()) (replicate 55 ())
          = Inr (4908923593833841 / 2251799813685248, replicate 218 (), replicate 55 ())"
    by blast
  from run val have d: "d = 4908923593833841 / 2251799813685248"
    and a: "take (nat na) (replicate 218 ()) = replicate 218 ()"
    and v: "take (nat nv) (replicate 55 ()) = replicate 55 ()"
    by simp_all
  from len have "int (length (take (nat na) (replicate 218 ()))) = na"
    and "int (length (take (nat nv) (replicate 55 ()))) = nv"
    by simp_all
  then have "na = 218" and "nv = 55"
    unfolding a v by simp_all
  with run d ne show ?thesis
    by blast
qed

text \<open>
  The claim that the sequences are truncated whatever their lengths fails for a
  track without video frames: an empty list of frames does not make the
  three-dimensional array that line 516 indexes.
\<close>

theorem align_features_empty_video:
  "align_features (replicate 100 ()) ([] :: unit list) = Inl IndexError"
  by (simp add: align_features_def Let_def)

text \<open>
  C1.  The iteration over \<^verbatim>\<open>duration_set\<close> yields six durations, not eleven.  On a
  track of two seconds (200 audio samples, 50 video frames) and a model that scores
  every frame of a window with the window's length, the code returns the mean of six
  passes, \<open>275 / 6\<close> rounded to \<open>45.8\<close>; the mean over the eleven durations of the
  multiset is \<open>475 / 11\<close>, rounded to \<open>43.2\<close>.
\<close>

theorem evaluate_network_six_passes:
  "sorted_list_of_set duration_set = [1, 2, 3, 4, 5, 6]
   \<and> evaluate_network_track window_length_scorer (replicate 200 ()) (replicate 50 ())
       = Inr (replicate 50 (229 / 5))
   \<and> spec_multiscale_scores window_length_scorer (replicate 200 ()) (replicate 50 ())
       = Inr (replicate 50 (216 / 5))"
  using durations_iterated evaluate_example spec_example by simp

section \<open>\<^verbatim>\<open>visualization\<close>: the smoothed score of every face box\<close>

text \<open>Lines 52 to 55: the slice around the local frame index and its mean.\<close>

definition smooth_score :: "rat list \<Rightarrow> nat \<Rightarrow> rat option" where
  "smooth_score score fidx =
     numpy_mean (py_slice score (max (int fidx - 2) 0) (min (int fidx + 3) (int (length score) - 1)))"

text \<open>
  An entry of \<^verbatim>\<open>faces[frame]\<close>: the track and its display score.  The crop geometry
  (\<^verbatim>\<open>s\<close>, \<^verbatim>\<open>x\<close>, \<^verbatim>\<open>y\<close>), copied from the track, plays no part in the score and is left
  out.
\<close>

record face_entry =
  e_track :: nat
  e_score :: "rat option"

text \<open>\<^verbatim>\<open>xs[i]\<close> addresses position \<open>i + len(xs)\<close> when \<open>i\<close> is negative.\<close>

definition py_index :: "nat \<Rightarrow> int \<Rightarrow> int" where
  "py_index n i = (if i < 0 then i + int n else i)"

text \<open>The loop \<^verbatim>\<open>for fidx, frame in enumerate(track["track"]["frame"].tolist())\<close>.\<close>

fun add_track_entries ::
  "nat \<Rightarrow> rat list \<Rightarrow> nat \<Rightarrow> int list \<Rightarrow> face_entry list list \<Rightarrow> py_error + face_entry list list" where
  "add_track_entries tidx score fidx [] faces = Inr faces"
| "add_track_entries tidx score fidx (frame_no # frames) faces =
     (let k = py_index (length faces) frame_no
      in if 0 \<le> k \<and> k < int (length faces) then
           add_track_entries tidx score (Suc fidx) frames
             (faces[nat k := faces ! nat k @ [\<lparr>e_track = tidx, e_score = smooth_score score fidx\<rparr>]])
         else Inl IndexError)"

text \<open>The loop \<^verbatim>\<open>for tidx, track in enumerate(tracks)\<close>; a track is given by its frames.\<close>

fun visualization_loop ::
  "nat \<Rightarrow> int list list \<Rightarrow> rat list list \<Rightarrow> face_entry list list \<Rightarrow> py_error + face_entry list list" where
  "visualization_loop tidx [] scores faces = Inr faces"
| "visualization_loop tidx (track # tracks) scores faces =
     (if tidx < length scores then
        (case add_track_entries tidx (scores ! tidx) 0 track faces of
           Inl e \<Rightarrow> Inl e
         | Inr faces' \<Rightarrow> visualization_loop (Suc tidx) tracks scores faces')
      else Inl IndexError)"

definition visualization_faces ::
  "nat \<Rightarrow> int list list \<Rightarrow> rat list list \<Rightarrow> py_error + face_entry list list" where
  "visualization_faces n_frames tracks scores =
     visualization_loop 0 tracks scores (replicate n_frames [])"

section \<open>The smoothing window\<close>

lemma drop_take_nth:
  assumes "b \<le> length xs"
  shows "drop a (take b xs) = map (\<lambda>j. xs ! j) [a..<b]"
proof -
  have "map (\<lambda>j. xs ! j) [a..<b] = map (\<lambda>j. xs ! j) (drop a (take b [0..<length xs]))"
    using assms by simp
  also have "\<dots> = drop a (take b (map (\<lambda>j. xs ! j) [0..<length xs]))"
    by (simp only: take_map drop_map)
  also have "\<dots> = drop a (take b xs)"
    by (simp only: map_nth)
  finally show ?thesis by simp
qed

lemma py_slice_window:
  assumes "0 \<le> a" and "b \<le> int (length xs)" and "b < 0 \<Longrightarrow> xs = []"
  shows "py_slice xs a b = map (\<lambda>j. xs ! j) [nat a..<nat b]"
proof (cases "a \<le> b")
  case True
  then have "py_slice xs a b = take (nat (b - a)) (drop (nat a) xs)"
    using assms by (simp add: py_slice_def Let_def min_def)
  also have "\<dots> = drop (nat a) (take (nat b) xs)"
    using assms True by (simp add: drop_take nat_diff_distrib)
  also have "\<dots> = map (\<lambda>j. xs ! j) [nat a..<nat b]"
    using assms True by (simp add: drop_take_nth)
  finally show ?thesis .
next
  case False
  then have "py_slice xs a b = []"
    using assms by (auto simp: py_slice_def Let_def min_def max_def)
  then show ?thesis
    using False assms by simp
qed

lemma smooth_score_window:
  "smooth_score score fidx
   = numpy_mean (map (\<lambda>j. score ! j)
       [nat (max (int fidx - 2) 0)..<nat (min (int fidx + 3) (int (length score) - 1))])"
proof -
  have e: "score = []" if "min (int fidx + 3) (int (length score) - 1) < 0"
  proof -
    from that have "int (length score) < 1"
      by (simp add: min_def split: if_splits)
    then show ?thesis by simp
  qed
  have "py_slice score (max (int fidx - 2) 0) (min (int fidx + 3) (int (length score) - 1))
        = map (\<lambda>j. score ! j)
            [nat (max (int fidx - 2) 0)..<nat (min (int fidx + 3) (int (length score) - 1))]"
  proof (rule py_slice_window)
    show "0 \<le> max (int fidx - 2) 0"
      by simp
    show "min (int fidx + 3) (int (length score) - 1) \<le> int (length score)"
      by simp
    assume "min (int fidx + 3) (int (length score) - 1) < 0"
    then show "score = []"
      by (rule e)
  qed
  then show ?thesis
    by (simp add: smooth_score_def)
qed

lemma add_track_entries_keeps:
  "add_track_entries tidx score fidx frames faces = Inr faces' \<Longrightarrow>
   length faces' = length faces \<and> (\<forall>k < length faces. set (faces ! k) \<subseteq> set (faces' ! k))"
proof (induction frames arbitrary: fidx faces)
  case Nil
  then show ?case by simp
next
  case (Cons frame_no frames)
  let ?k = "py_index (length faces) frame_no"
  let ?e = "\<lparr>e_track = tidx, e_score = smooth_score score fidx\<rparr>"
  let ?faces = "faces[nat ?k := faces ! nat ?k @ [?e]]"
  from Cons.prems have ok: "0 \<le> ?k \<and> ?k < int (length faces)"
    and run: "add_track_entries tidx score (Suc fidx) frames ?faces = Inr faces'"
    by (auto simp: Let_def split: if_splits)
  from Cons.IH [OF run]
  have l: "length faces' = length faces"
    and s: "\<forall>k < length faces. set (?faces ! k) \<subseteq> set (faces' ! k)"
    by simp_all
  have "set (faces ! k) \<subseteq> set (faces' ! k)" if "k < length faces" for k
  proof -
    have "set (faces ! k) \<subseteq> set (?faces ! k)"
      using that by (cases "k = nat ?k") auto
    then show ?thesis
      using s that by blast
  qed
  then show ?case
    using l by blast
qed

lemma add_track_entries_adds:
  "add_track_entries tidx score fidx frames faces = Inr faces' \<Longrightarrow> i < length frames \<Longrightarrow>
   0 \<le> py_index (length faces) (frames ! i) \<and> py_index (length faces) (frames ! i) < int (length faces)
   \<and> \<lparr>e_track = tidx, e_score = smooth_score score (fidx + i)\<rparr>
       \<in> set (faces' ! nat (py_index (length faces) (frames ! i)))"
proof (induction frames arbitrary: fidx faces i)
  case Nil
  then show ?case by simp
next
  case (Cons frame_no frames)
  let ?k = "py_index (length faces) frame_no"
  let ?e = "\<lparr>e_track = tidx, e_score = smooth_score score fidx\<rparr>"
  let ?faces = "faces[nat ?k := faces ! nat ?k @ [?e]]"
  from Cons.prems have ok: "0 \<le> ?k \<and> ?k < int (length faces)"
    and run: "add_track_entries tidx score (Suc fidx) frames ?faces = Inr faces'"
    by (auto simp: Let_def split: if_splits)
  show ?case
  proof (cases i)
    case 0
    have nk: "nat ?k < length faces"
      using ok by (simp add: nat_less_iff)
    have "?e \<in> set (?faces ! nat ?k)"
      using nk by simp
    moreover have "set (?faces ! nat ?k) \<subseteq> set (faces' ! nat ?k)"
    proof -
      from add_track_entries_keeps [OF run]
      have "\<forall>k < length ?faces. set (?faces ! k) \<subseteq> set (faces' ! k)"
        by blast
      then show ?thesis
        using nk by (elim allE [of _ "nat ?k"]) simp
    qed
    ultimately show ?thesis
      using 0 ok by auto
  next
    case (Suc j)
    then have "j < length frames"
      using Cons.prems by simp
    from Cons.IH [OF run this] show ?thesis
      using Suc by simp
  qed
qed

lemma visualization_loop_keeps:
  "visualization_loop tidx tracks scores faces = Inr faces' \<Longrightarrow>
   length faces' = length faces \<and> (\<forall>k < length faces. set (faces ! k) \<subseteq> set (faces' ! k))"
proof (induction tracks arbitrary: tidx faces)
  case Nil
  then show ?case by simp
next
  case (Cons track tracks)
  from Cons.prems obtain mid where
    one: "add_track_entries tidx (scores ! tidx) 0 track faces = Inr mid"
    and rest: "visualization_loop (Suc tidx) tracks scores mid = Inr faces'"
    by (auto split: if_splits sum.splits)
  from add_track_entries_keeps [OF one] Cons.IH [OF rest] show ?case
    by (metis subset_trans)
qed

lemma visualization_loop_adds:
  "visualization_loop tidx tracks scores faces = Inr faces' \<Longrightarrow> t < length tracks \<Longrightarrow>
   i < length (tracks ! t) \<Longrightarrow>
   0 \<le> py_index (length faces) (tracks ! t ! i) \<and> py_index (length faces) (tracks ! t ! i) < int (length faces)
   \<and> \<lparr>e_track = tidx + t, e_score = smooth_score (scores ! (tidx + t)) i\<rparr>
       \<in> set (faces' ! nat (py_index (length faces) (tracks ! t ! i)))"
proof (induction tracks arbitrary: tidx faces t)
  case Nil
  then show ?case by simp
next
  case (Cons track tracks)
  from Cons.prems(1) obtain mid where
    one: "add_track_entries tidx (scores ! tidx) 0 track faces = Inr mid"
    and rest: "visualization_loop (Suc tidx) tracks scores mid = Inr faces'"
    by (auto split: if_splits sum.splits)
  have lm: "length mid = length faces"
    using add_track_entries_keeps [OF one] by simp
  show ?case
  proof (cases t)
    case 0
    then have i: "i < length track"
      using Cons.prems(3) by simp
    let ?k = "py_index (length faces) (track ! i)"
    from add_track_entries_adds [OF one i]
    have ok: "0 \<le> ?k \<and> ?k < int (length faces)"
      and e: "\<lparr>e_track = tidx, e_score = smooth_score (scores ! tidx) (0 + i)\<rparr> \<in> set (mid ! nat ?k)"
      by simp_all
    have "nat ?k < length mid"
      using ok lm by (simp add: nat_less_iff)
    then have "set (mid ! nat ?k) \<subseteq> set (faces' ! nat ?k)"
      using visualization_loop_keeps [OF rest] by blast
    then show ?thesis
      using 0 ok e by auto
  next
    case (Suc u)
    then have u: "u < length tracks" and i: "i < length (tracks ! u)"
      using Cons.prems by simp_all
    from Cons.IH [OF rest u i] show ?thesis
      using Suc lm by simp
  qed
qed

text \<open>
  C7.  For every track \<open>tidx\<close> and local frame index \<open>fidx\<close>, the entry drawn on the
  track's frame carries the mean of the scores at the indices from \<open>max(fidx - 2, 0)\<close>
  up to, and excluding, \<open>min(fidx + 3, len(scores) - 1)\<close>.  For five scores, index \<open>0\<close>
  averages the indices 0, 1, 2 and the last index averages the indices 2 and 3.
\<close>

theorem displayed_score_window:
  assumes "visualization_faces n_frames tracks scores = Inr faces"
    and "tidx < length tracks" and "fidx < length (tracks ! tidx)"
  shows "\<lparr>e_track = tidx,
          e_score = numpy_mean (map (\<lambda>j. scores ! tidx ! j)
            [nat (max (int fidx - 2) 0)..<nat (min (int fidx + 3) (int (length (scores ! tidx)) - 1))])\<rparr>
           \<in> set (faces ! nat (py_index n_frames (tracks ! tidx ! fidx)))
       \<and> smooth_score [s0, s1, s2, s3, s4] 0 = Some ((s0 + s1 + s2) / 3)
       \<and> smooth_score [s0, s1, s2, s3, s4] 4 = Some ((s2 + s3) / 2)"
proof -
  have "\<lparr>e_track = 0 + tidx, e_score = smooth_score (scores ! (0 + tidx)) fidx\<rparr>
          \<in> set (faces ! nat (py_index (length (replicate n_frames ([]::face_entry list))) (tracks ! tidx ! fidx)))"
    using visualization_loop_adds [OF assms(1) [unfolded visualization_faces_def] assms(2,3)] by blast
  then have "\<lparr>e_track = tidx, e_score = smooth_score (scores ! tidx) fidx\<rparr>
          \<in> set (faces ! nat (py_index n_frames (tracks ! tidx ! fidx)))"
    by simp
  moreover have "smooth_score [s0, s1, s2, s3, s4] 0 = Some ((s0 + s1 + s2) / 3)"
    by (simp add: smooth_score_def py_slice_def numpy_mean_def)
  moreover have "smooth_score [s0, s1, s2, s3, s4] 4 = Some ((s2 + s3) / 2)"
    by (simp add: smooth_score_def py_slice_def numpy_mean_def)
  ultimately show ?thesis
    by (simp add: smooth_score_window)
qed

theorem displayed_score_window_witness:
  "visualization_faces 3 [[1, 2]] [[1, 3]]
     = Inr [[], [\<lparr>e_track = 0, e_score = Some 1\<rparr>], [\<lparr>e_track = 0, e_score = Some 1\<rparr>]]
   \<and> \<lparr>e_track = 0, e_score = Some (1::rat)\<rparr>
       \<in> set ([[], [\<lparr>e_track = 0, e_score = Some 1\<rparr>], [\<lparr>e_track = 0, e_score = Some 1\<rparr>]] ! 1)
   \<and> smooth_score [1, 2, 3, 4, 5] 0 = Some 2
   \<and> smooth_score [1, 2, 3, 4, 5] 4 = Some (7 / 2)"
proof -
  have run: "visualization_faces 3 [[1, 2]] [[1, 3]]
     = Inr [[], [\<lparr>e_track = 0, e_score = Some 1\<rparr>], [\<lparr>e_track = 0, e_score = Some 1\<rparr>]]"
    by (simp add: visualization_faces_def py_index_def smooth_score_def py_slice_def
        numpy_mean_def numeral_3_eq_3)
  have t: "(0::nat) < length [[1, 2::int]]" and f: "(0::nat) < length ([[1, 2::int]] ! 0)"
    by simp_all
  from displayed_score_window [OF run t f, of 1 2 3 4 5]
  show ?thesis
    using run by (simp add: py_index_def)
qed

section \<open>\<^verbatim>\<open>Pipeline\<close>: the working directory and the two exception handlers\<close>

text \<open>
  The part of the outside world the driver acts on: the paths that exist (files and
  directories, each a list of components) and what was printed.  A directory exists
  when some existing path lies at or below it.
\<close>

type_synonym path = "string list"

record world =
  files :: "path list"
  stdout :: "string list"

text \<open>
  A stage is a collaborator outside the embedded code: it changes the world and
  either returns a value or raises an exception of class \<^verbatim>\<open>Exception\<close> (type \<open>'e\<close>).
  The world it leaves behind is kept in both cases.
\<close>

type_synonym ('e, 'a) action = "world \<Rightarrow> ('e + 'a) \<times> world"

definition returns :: "'a \<Rightarrow> ('e, 'a) action" where
  "returns a w = (Inr a, w)"

definition and_then :: "('e, 'a) action \<Rightarrow> ('a \<Rightarrow> ('e, 'b) action) \<Rightarrow> ('e, 'b) action" where
  "and_then m f w = (case m w of (Inl e, w') \<Rightarrow> (Inl e, w') | (Inr a, w') \<Rightarrow> f a w')"

definition print :: "string \<Rightarrow> world \<Rightarrow> world" where
  "print msg w = w\<lparr>stdout := stdout w @ [msg]\<rparr>"

definition path_exists :: "world \<Rightarrow> path \<Rightarrow> bool" where
  "path_exists w p = list_ex (prefix p) (files w)"

text \<open>\<^verbatim>\<open>shutil.rmtree\<close> removes the directory and everything below it.\<close>

definition rmtree :: "path \<Rightarrow> world \<Rightarrow> world" where
  "rmtree p w = w\<lparr>files := filter (\<lambda>q. \<not> prefix p q) (files w)\<rparr>"

text \<open>\<^verbatim>\<open>Path.mkdir(parents=True, exist_ok=True)\<close>.\<close>

definition mkdir :: "path \<Rightarrow> world \<Rightarrow> world" where
  "mkdir p w = (if p \<in> set (files w) then w else w\<lparr>files := files w @ [p]\<rparr>)"

definition cleanup_cache :: "path \<Rightarrow> world \<Rightarrow> world" where
  "cleanup_cache save_path w =
     (if path_exists w save_path then rmtree save_path (print ''Deleting save_path'' w) else w)"

definition setup_paths :: "path \<Rightarrow> world \<Rightarrow> world" where
  "setup_paths save_path w =
     mkdir (save_path @ [''pycrop'']) (mkdir (save_path @ [''pywork''])
       (mkdir (save_path @ [''pyframes'']) (mkdir (save_path @ [''pyavi''])
         (cleanup_cache save_path w))))"

text \<open>
  The collaborators called by \<^verbatim>\<open>__init__\<close>: the two calls made before the working
  directory is set up, and the construction of \<^verbatim>\<open>ActiveSpeakerDetector\<close> (the model
  and its parameters).  The constructors of \<^verbatim>\<open>VideoPreprocessor\<close> and
  \<^verbatim>\<open>FaceProcessor\<close> only store their argument.
\<close>

record ('e, 'm) constructors =
  resolve_device :: "('e, unit) action"
  hf_hub_download :: "('e, unit) action"
  speaker_detector :: "('e, 'm) action"

definition before_setup :: "('e, 'm) constructors \<Rightarrow> ('e, unit) action" where
  "before_setup c = and_then (resolve_device c) (\<lambda>_. hf_hub_download c)"

definition pipeline_init :: "path \<Rightarrow> ('e, 'm) constructors \<Rightarrow> ('e, 'm) action" where
  "pipeline_init save_path c w =
     (case before_setup c w of
        (Inl e, w1) \<Rightarrow> (Inl e, w1)
      | (Inr _, w1) \<Rightarrow>
          (case speaker_detector c (setup_paths save_path w1) of
             (Inl e, w2) \<Rightarrow>
               (Inl e, cleanup_cache save_path (print ''Error while trying to initialize ASD pipeline'' w2))
           | (Inr m, w2) \<Rightarrow> (Inr m, w2)))"

text \<open>The stages called by \<^verbatim>\<open>run\<close>, in the order of the \<^verbatim>\<open>try\<close> block.\<close>

record ('e, 'sc, 'fa, 'tr, 'vt, 'so) stages =
  stage_extract_video :: "('e, unit) action"
  stage_extract_audio :: "('e, unit) action"
  stage_extract_frames :: "('e, unit) action"
  stage_scenes_detect :: "('e, 'sc) action"
  stage_detect_faces :: "('e, 'fa) action"
  stage_track_faces :: "'sc \<Rightarrow> 'fa \<Rightarrow> ('e, 'tr) action"
  stage_video_tracks :: "'tr \<Rightarrow> ('e, 'vt) action"
  stage_save_tracks :: "'vt \<Rightarrow> ('e, unit) action"
  stage_evaluate_network :: "('e, 'so) action"
  stage_save_scores :: "'so \<Rightarrow> ('e, unit) action"
  stage_visualization :: "'so \<Rightarrow> 'vt \<Rightarrow> ('e, unit) action"

definition run_stages :: "('e, 'sc, 'fa, 'tr, 'vt, 'so) stages \<Rightarrow> ('e, unit) action" where
  "run_stages st =
     and_then (stage_extract_video st) (\<lambda>_.
     and_then (stage_extract_audio st) (\<lambda>_.
     and_then (stage_extract_frames st) (\<lambda>_.
     and_then (stage_scenes_detect st) (\<lambda>scenes.
     and_then (stage_detect_faces st) (\<lambda>faces.
     and_then (stage_track_faces st scenes faces) (\<lambda>all_tracks.
     and_then (stage_video_tracks st all_tracks) (\<lambda>video_tracks.
     and_then (stage_save_tracks st video_tracks) (\<lambda>_.
     and_then (stage_evaluate_network st) (\<lambda>scores.
     and_then (stage_save_scores st scores) (\<lambda>_.
     stage_visualization st scores video_tracks))))))))))"

definition run :: "path \<Rightarrow> ('e, 'sc, 'fa, 'tr, 'vt, 'so) stages \<Rightarrow> ('e, unit) action" where
  "run save_path st w =
     (case run_stages st w of
        (Inl e, w') \<Rightarrow>
          (Inl e, cleanup_cache save_path (print ''Error while trying to process video'' w'))
      | (Inr u, w') \<Rightarrow> (Inr u, w'))"

section \<open>No working directory after a failure\<close>

lemma rmtree_removes: "\<not> path_exists (rmtree p w) p"
  by (simp add: path_exists_def rmtree_def list_ex_iff)

lemma cleanup_cache_removes: "\<not> path_exists (cleanup_cache p w) p"
  by (simp add: cleanup_cache_def rmtree_removes)

text \<open>
  C9.  When a stage of \<^verbatim>\<open>run\<close> raises, or when the construction inside the \<^verbatim>\<open>try\<close>
  of \<^verbatim>\<open>__init__\<close> raises, the exception that reaches the caller is the one that was
  raised, and in the world left behind nothing exists at or below the working
  directory.
\<close>

theorem failure_removes_working_directory:
  "(run save_path st w = (Inl e, w') \<longrightarrow>
      fst (run_stages st w) = Inl e \<and> \<not> path_exists w' save_path
      \<and> filter (prefix save_path) (files w') = [])
   \<and> (before_setup c w = (Inr u, w1) \<and> pipeline_init save_path c w = (Inl e, w') \<longrightarrow>
      fst (speaker_detector c (setup_paths save_path w1)) = Inl e \<and> \<not> path_exists w' save_path
      \<and> filter (prefix save_path) (files w') = [])"
proof -
  have gone: "filter (prefix p) (files v) = []" if "\<not> path_exists v p" for p and v :: world
    using that by (simp add: path_exists_def list_ex_iff filter_empty_conv)
  have r: "fst (run_stages st w) = Inl e \<and> \<not> path_exists w' save_path"
    if "run save_path st w = (Inl e, w')"
    using that unfolding run_def
    by (cases "run_stages st w") (auto simp: cleanup_cache_removes split: sum.splits)
  have i: "fst (speaker_detector c (setup_paths save_path w1)) = Inl e \<and> \<not> path_exists w' save_path"
    if "before_setup c w = (Inr u, w1)" and "pipeline_init save_path c w = (Inl e, w')"
    using that unfolding pipeline_init_def
    by (cases "speaker_detector c (setup_paths save_path w1)")
      (auto simp: cleanup_cache_removes split: sum.splits)
  show ?thesis
    using r i gone by blast
qed

text \<open>
  A run whose face detection stage raises after frames were written, and an
  initialisation whose model cannot be built.
\<close>

definition work_dir :: path where
  "work_dir = [''cache'', ''clip'']"

definition writes :: "path \<Rightarrow> (string, unit) action" where
  "writes p w = (Inr (), w\<lparr>files := files w @ [p]\<rparr>)"

definition raises :: "string \<Rightarrow> (string, 'a) action" where
  "raises e w = (Inl e, w)"

definition failing_stages :: "(string, unit, unit, unit, unit, unit) stages" where
  "failing_stages =
     \<lparr>stage_extract_video = writes (work_dir @ [''pyavi'', ''video.avi'']),
      stage_extract_audio = writes (work_dir @ [''pyavi'', ''audio.wav'']),
      stage_extract_frames = writes (work_dir @ [''pyframes'', ''000001.jpg'']),
      stage_scenes_detect = writes (work_dir @ [''pywork'', ''scene.pckl'']),
      stage_detect_faces = raises ''detector failed'',
      stage_track_faces = (\<lambda>_ _. returns ()),
      stage_video_tracks = (\<lambda>_. returns ()),
      stage_save_tracks = (\<lambda>_. returns ()),
      stage_evaluate_network = returns (),
      stage_save_scores = (\<lambda>_. returns ()),
      stage_visualization = (\<lambda>_ _. returns ())\<rparr>"

definition failing_constructors :: "(string, unit) constructors" where
  "failing_constructors =
     \<lparr>resolve_device = returns (), hf_hub_download = writes [''hub'', ''pretrain_TalkSet.model''],
      speaker_detector = raises ''cannot load model''\<rparr>"

definition initial_world :: world where
  "initial_world = \<lparr>files = [[''cache'']], stdout = []\<rparr>"

lemma failing_run:
  "run work_dir failing_stages (setup_paths work_dir initial_world)
   = (Inl ''detector failed'',
      \<lparr>files = [[''cache'']],
       stdout = [''Error while trying to process video'', ''Deleting save_path'']\<rparr>)"
  by (simp add: run_def run_stages_def failing_stages_def and_then_def writes_def raises_def
      returns_def setup_paths_def cleanup_cache_def path_exists_def rmtree_def mkdir_def print_def
      work_dir_def initial_world_def)

lemma failing_init:
  "before_setup failing_constructors initial_world
     = (Inr (), \<lparr>files = [[''cache''], [''hub'', ''pretrain_TalkSet.model'']], stdout = []\<rparr>)
   \<and> pipeline_init work_dir failing_constructors initial_world
     = (Inl ''cannot load model'',
        \<lparr>files = [[''cache''], [''hub'', ''pretrain_TalkSet.model'']],
         stdout = [''Error while trying to initialize ASD pipeline'', ''Deleting save_path'']\<rparr>)"
  by (simp add: pipeline_init_def before_setup_def failing_constructors_def and_then_def
      writes_def raises_def returns_def setup_paths_def cleanup_cache_def path_exists_def
      rmtree_def mkdir_def print_def work_dir_def initial_world_def)

theorem failure_removes_working_directory_witness:
  "run work_dir failing_stages (setup_paths work_dir initial_world)
     = (Inl ''detector failed'',
        \<lparr>files = [[''cache'']],
         stdout = [''Error while trying to process video'', ''Deleting save_path'']\<rparr>)
   \<and> before_setup failing_constructors initial_world
     = (Inr (), \<lparr>files = [[''cache''], [''hub'', ''pretrain_TalkSet.model'']], stdout = []\<rparr>)
   \<and> pipeline_init work_dir failing_constructors initial_world
     = (Inl ''cannot load model'',
        \<lparr>files = [[''cache''], [''hub'', ''pretrain_TalkSet.model'']],
         stdout = [''Error while trying to initialize ASD pipeline'', ''Deleting save_path'']\<rparr>)
   \<and> fst (run_stages failing_stages (setup_paths work_dir initial_world)) = Inl ''detector failed''
   \<and> \<not> path_exists \<lparr>files = [[''cache'']],
         stdout = [''Error while trying to process video'', ''Deleting save_path'']\<rparr> work_dir
   \<and> \<not> path_exists \<lparr>files = [[''cache''], [''hub'', ''pretrain_TalkSet.model'']],
         stdout = [''Error while trying to initialize ASD pipeline'', ''Deleting save_path'']\<rparr> work_dir"
proof -
  note a = failure_removes_working_directory [THEN conjunct1, THEN mp, OF failing_run]
  note b = failure_removes_working_directory [THEN conjunct2, THEN mp, OF failing_init]
  show ?thesis
    using failing_run failing_init a b by blast
qed

section \<open>\<^verbatim>\<open>FaceProcessor.track_shot\<close>: greedy association\<close>

text \<open>The configuration values the tracker reads from \<^verbatim>\<open>self.args\<close>.\<close>

record args =
  min_track :: int
  num_failed_det :: int
  min_face_size :: rat

definition iouThres :: rat where
  "iouThres = 1 / 2"

text \<open>
  The loop \<^verbatim>\<open>for face in frameFaces\<close>.  Python iterates over the list by position
  while the body removes from the same list: \<open>i\<close> is the position of the iterator,
  and after \<^verbatim>\<open>frameFaces.remove(face)\<close> (which deletes the first element equal to
  \<^verbatim>\<open>face\<close>) the next element visited is the one at position \<open>i + 1\<close> of the shortened
  list.  The \<^verbatim>\<open>break\<close> leaves this loop only.
\<close>

function scan_frame ::
  "int \<Rightarrow> nat \<Rightarrow> detection list \<Rightarrow> detection list \<Rightarrow> py_error + detection list \<times> detection list" where
  "scan_frame nfd i track frameFaces =
     (if i < length frameFaces then
        (if track = [] then
           scan_frame nfd (Suc i) (track @ [frameFaces ! i]) (remove1 (frameFaces ! i) frameFaces)
         else if frame (frameFaces ! i) - frame (last track) \<le> nfd then
           (case bb_intersection_over_union (bbox (frameFaces ! i)) (bbox (last track)) False of
              Inl e \<Rightarrow> Inl e
            | Inr iou \<Rightarrow>
                if iouThres < iou then
                  scan_frame nfd (Suc i) (track @ [frameFaces ! i])
                    (remove1 (frameFaces ! i) frameFaces)
                else scan_frame nfd (Suc i) track frameFaces)
         else Inr (track, frameFaces))
      else Inr (track, frameFaces))"
  by pat_completeness auto
termination
  by (relation "measure (\<lambda>(nfd, i, track, frameFaces). length frameFaces - i)")
    (auto simp: length_remove1)

declare scan_frame.simps [simp del]

text \<open>The loop \<^verbatim>\<open>for frameFaces in sceneFaces\<close>; it returns the track and the pool as mutated.\<close>

fun scan_pass ::
  "int \<Rightarrow> detection list \<Rightarrow> detection list list \<Rightarrow> py_error + detection list \<times> detection list list" where
  "scan_pass nfd track [] = Inr (track, [])"
| "scan_pass nfd track (frameFaces # sceneFaces) =
     (case scan_frame nfd 0 track frameFaces of
        Inl e \<Rightarrow> Inl e
      | Inr (track', frameFaces') \<Rightarrow>
          (case scan_pass nfd track' sceneFaces of
             Inl e \<Rightarrow> Inl e
           | Inr (track'', sceneFaces') \<Rightarrow> Inr (track'', frameFaces' # sceneFaces')))"

text \<open>
  When a visited detection joins a track whose last element is \<open>prev\<close>: the gap
  test of the \<^verbatim>\<open>elif\<close> and the threshold test on the intersection-over-union.
\<close>

definition qualifies :: "int \<Rightarrow> detection \<Rightarrow> detection \<Rightarrow> bool" where
  "qualifies nfd prev face =
     (frame face - frame prev \<le> nfd \<and>
      (case bb_intersection_over_union (bbox face) (bbox prev) False of
         Inl e \<Rightarrow> False
       | Inr iou \<Rightarrow> iouThres < iou))"

text \<open>
  \<^verbatim>\<open>scipy.interpolate.interp1d(x, y)\<close> evaluated at \<open>q\<close>: the knots are sorted by \<open>x\<close>
  (stable), and the value is read off the segment that starts at the last knot not
  right of \<open>q\<close>; where several knots share the abscissa \<open>q\<close>, this is the value of
  the last of them, as \<^verbatim>\<open>numpy.interp\<close> returns it.  The tracker only asks for
  points between the first and the last frame of the track, so the bounds check of
  \<^verbatim>\<open>interp1d\<close> never fires, and it always passes at least one knot.
\<close>

fun interp_sorted :: "(int \<times> rat) list \<Rightarrow> int \<Rightarrow> rat" where
  "interp_sorted [] q = 0"
| "interp_sorted [(x, y)] q = y"
| "interp_sorted ((x0, y0) # (x1, y1) # knots) q =
     (if x1 \<le> q then interp_sorted ((x1, y1) # knots) q
      else if q = x0 then y0
      else y0 + (y1 - y0) / of_int (x1 - x0) * of_int (q - x0))"

definition interp1d :: "int list \<Rightarrow> rat list \<Rightarrow> int \<Rightarrow> rat" where
  "interp1d xs ys q = interp_sorted (sort_key fst (zip xs ys)) q"

text \<open>An emitted track: the dictionary with the keys \<^verbatim>\<open>frame\<close>, \<^verbatim>\<open>bbox\<close>, \<^verbatim>\<open>confidence\<close>.\<close>

record track =
  t_frame :: "int list"
  t_bbox :: "box list"
  t_confidence :: "rat list"

text \<open>
  Lines 347 to 376, for a candidate that passed \<^verbatim>\<open>len(track) > min_track\<close>: the
  frame range \<^verbatim>\<open>numpy.arange(frameNum[0], frameNum[-1] + 1)\<close>, the interpolated boxes
  and confidences, and the test on the mean face size.  The mean over an empty range
  is NaN, and a comparison with NaN is false.
\<close>

definition interpolate_track :: "args \<Rightarrow> detection list \<Rightarrow> track option" where
  "interpolate_track a candidate =
     (let frameNum = map frame candidate;
          frameI = [hd frameNum..last frameNum];
          bboxesI = map (\<lambda>q.
             (interp1d frameNum (map (\<lambda>f. fst (bbox f)) candidate) q,
              interp1d frameNum (map (\<lambda>f. fst (snd (bbox f))) candidate) q,
              interp1d frameNum (map (\<lambda>f. fst (snd (snd (bbox f)))) candidate) q,
              interp1d frameNum (map (\<lambda>f. snd (snd (snd (bbox f)))) candidate) q)) frameI;
          confidencesI = map (interp1d frameNum (map conf candidate)) frameI
      in case (numpy_mean (map (\<lambda>(x0, y0, x1, y1). x1 - x0) bboxesI),
               numpy_mean (map (\<lambda>(x0, y0, x1, y1). y1 - y0) bboxesI)) of
           (Some mean_width, Some mean_height) \<Rightarrow>
             if min_face_size a < max mean_width mean_height then
               Some \<lparr>t_frame = frameI, t_bbox = bboxesI, t_confidence = confidencesI\<rparr>
             else None
         | _ \<Rightarrow> None)"

text \<open>The branch \<^verbatim>\<open>elif len(track) > self.args.min_track\<close> with its nested test.\<close>

definition finish_candidate :: "args \<Rightarrow> detection list \<Rightarrow> track option" where
  "finish_candidate a candidate =
     (if min_track a < int (length candidate) then interpolate_track a candidate else None)"

lemma scan_frame_mset:
  "scan_frame nfd i track ff = Inr (track', ff') \<Longrightarrow>
   mset track' + mset ff' = mset track + mset ff"
proof (induction nfd i track ff rule: scan_frame.induct)
  case (1 nfd i track ff)
  show ?case
  proof (cases "i < length ff")
    case False
    with "1.prems" show ?thesis
      by (simp add: scan_frame.simps)
  next
    case True
    then have mem: "ff ! i \<in> set ff"
      by simp
    have moved: "mset (track @ [ff ! i]) + mset (remove1 (ff ! i) ff) = mset track + mset ff"
      using mem by simp
    show ?thesis
    proof (cases "track = []")
      case True
      with \<open>i < length ff\<close> "1.prems"
      have "scan_frame nfd (Suc i) (track @ [ff ! i]) (remove1 (ff ! i) ff) = Inr (track', ff')"
        by (simp add: scan_frame.simps [of nfd i])
      from "1.IH"(1) [OF \<open>i < length ff\<close> True this] moved show ?thesis
        by simp
    next
      case False
      show ?thesis
      proof (cases "frame (ff ! i) - frame (last track) \<le> nfd")
        case gap: False
        with False \<open>i < length ff\<close> "1.prems" show ?thesis
          by (simp add: scan_frame.simps [of nfd i])
      next
        case gap: True
        from "1.prems" False gap \<open>i < length ff\<close>
        obtain iou where iou: "bb_intersection_over_union (bbox (ff ! i)) (bbox (last track)) False = Inr iou"
          by (cases "bb_intersection_over_union (bbox (ff ! i)) (bbox (last track)) False")
            (auto simp: scan_frame.simps [of nfd i])
        show ?thesis
        proof (cases "iouThres < iou")
          case True
          with False gap iou \<open>i < length ff\<close> "1.prems"
          have "scan_frame nfd (Suc i) (track @ [ff ! i]) (remove1 (ff ! i) ff) = Inr (track', ff')"
            by (simp add: scan_frame.simps [of nfd i])
          from "1.IH"(2) [OF \<open>i < length ff\<close> False gap iou True this] moved show ?thesis
            by simp
        next
          case nq: False
          with False gap iou \<open>i < length ff\<close> "1.prems"
          have "scan_frame nfd (Suc i) track ff = Inr (track', ff')"
            by (simp add: scan_frame.simps [of nfd i])
          from "1.IH"(3) [OF \<open>i < length ff\<close> False gap iou nq this] show ?thesis .
        qed
      qed
    qed
  qed
qed


lemma scan_frame_size:
  "scan_frame nfd i track ff = Inr (track', ff') \<Longrightarrow>
   length track' + length ff' = length track + length ff"
  by (drule scan_frame_mset) (metis size_mset size_union)

lemma scan_pass_mset:
  "scan_pass nfd track pool = Inr (track', pool') \<Longrightarrow>
   mset track' + mset (concat pool') = mset track + mset (concat pool) \<and> length pool' = length pool"
proof (induction pool arbitrary: track track' pool')
  case Nil
  then show ?case by simp
next
  case (Cons ff pool)
  from Cons.prems obtain mid ff' rest where
    one: "scan_frame nfd 0 track ff = Inr (mid, ff')"
    and more: "scan_pass nfd mid pool = Inr (track', rest)"
    and p: "pool' = ff' # rest"
    by (auto split: sum.splits prod.splits)
  from scan_frame_mset [OF one] Cons.IH [OF more] p show ?case
    by (simp add: union_ac)
qed

lemma scan_pass_size:
  assumes "scan_pass nfd [] pool = Inr (track', pool')" and "track' \<noteq> []"
  shows "length (concat pool') < length (concat pool)"
proof -
  from scan_pass_mset [OF assms(1)]
  have "size (mset track' + mset (concat pool')) = size (mset (concat pool))"
    by simp
  then have "length track' + length (concat pool') = length (concat pool)"
    by (simp only: size_union size_mset)
  then show ?thesis
    using assms(2) by (cases track') auto
qed

text \<open>
  The loop \<^verbatim>\<open>while True\<close>: one pass over the shot, then the candidate is finished or
  dropped, until a pass leaves the candidate empty.  The pool is returned with the
  tracks because the removals are visible to the caller.
\<close>

function track_shot_loop ::
  "args \<Rightarrow> detection list list \<Rightarrow> track list \<Rightarrow> py_error + track list \<times> detection list list" where
  "track_shot_loop a sceneFaces tracks =
     (case scan_pass (num_failed_det a) [] sceneFaces of
        Inl e \<Rightarrow> Inl e
      | Inr (candidate, sceneFaces') \<Rightarrow>
          if candidate = [] then Inr (tracks, sceneFaces')
          else (case finish_candidate a candidate of
                  Some t \<Rightarrow> track_shot_loop a sceneFaces' (tracks @ [t])
                | None \<Rightarrow> track_shot_loop a sceneFaces' tracks))"
  by pat_completeness auto
termination
  by (relation "measure (\<lambda>(a, sceneFaces, tracks). length (concat sceneFaces))")
    (auto dest: scan_pass_size)

declare track_shot_loop.simps [simp del]

definition track_shot :: "args \<Rightarrow> detection list list \<Rightarrow> py_error + track list \<times> detection list list" where
  "track_shot a sceneFaces = track_shot_loop a sceneFaces []"

text \<open>The candidates of the successive passes of the same loop, before they are finished.\<close>

function shot_candidates ::
  "int \<Rightarrow> detection list list \<Rightarrow> py_error + detection list list \<times> detection list list" where
  "shot_candidates nfd sceneFaces =
     (case scan_pass nfd [] sceneFaces of
        Inl e \<Rightarrow> Inl e
      | Inr (candidate, sceneFaces') \<Rightarrow>
          if candidate = [] then Inr ([], sceneFaces')
          else (case shot_candidates nfd sceneFaces' of
                  Inl e \<Rightarrow> Inl e
                | Inr (candidates, pool) \<Rightarrow> Inr (candidate # candidates, pool)))"
  by pat_completeness auto
termination
  by (relation "measure (\<lambda>(nfd, sceneFaces). length (concat sceneFaces))")
    (auto dest: scan_pass_size)

declare shot_candidates.simps [simp del]

section \<open>\<^verbatim>\<open>FaceProcessor.track_faces\<close>\<close>

text \<open>
  A shot is the pair of the frame numbers of its two time codes.  The slice
  \<^verbatim>\<open>face_detections[start : end + 1]\<close> is a new outer list of the same inner lists, so
  what \<^verbatim>\<open>track_shot\<close> removes is removed from \<^verbatim>\<open>face_detections\<close> too: the pool is
  written back before the next shot.
\<close>

type_synonym shot = "nat \<times> nat"

definition write_back :: "'a list \<Rightarrow> nat \<Rightarrow> 'a list \<Rightarrow> 'a list" where
  "write_back xs start ys = take start xs @ ys @ drop (start + length ys) xs"

fun track_faces ::
  "args \<Rightarrow> shot list \<Rightarrow> detection list list \<Rightarrow> py_error + track list \<times> detection list list" where
  "track_faces a [] face_detections = Inr ([], face_detections)"
| "track_faces a (shot # scenes) face_detections =
     (if min_track a \<le> int (snd shot) - int (fst shot) then
        (case track_shot a (py_slice face_detections (int (fst shot)) (int (snd shot) + 1)) of
           Inl e \<Rightarrow> Inl e
         | Inr (tracks, pool) \<Rightarrow>
             (case track_faces a scenes (write_back face_detections (fst shot) pool) of
                Inl e \<Rightarrow> Inl e
              | Inr (all_tracks, face_detections') \<Rightarrow> Inr (tracks @ all_tracks, face_detections')))
      else track_faces a scenes face_detections)"

section \<open>Invariants of the scan\<close>

text \<open>
  Every property of one pass over a frame list comes from what a single visit does:
  the visited detection joins the track and leaves the list, or nothing changes.
\<close>

lemma scan_frame_inv:
  assumes app: "\<And>n i t f. I n i t f \<Longrightarrow> i < length f \<Longrightarrow> t = [] \<or> qualifies n (last t) (f ! i) \<Longrightarrow>
                  I n (Suc i) (t @ [f ! i]) (remove1 (f ! i) f)"
    and skip: "\<And>n i t f. I n i t f \<Longrightarrow> i < length f \<Longrightarrow> t \<noteq> [] \<Longrightarrow> I n (Suc i) t f"
  shows "scan_frame nfd i track ff = Inr (track', ff') \<Longrightarrow> I nfd i track ff \<Longrightarrow> \<exists>j. I nfd j track' ff'"
proof (induction nfd i track ff rule: scan_frame.induct)
  case (1 nfd i track ff)
  show ?case
  proof (cases "i < length ff")
    case False
    with "1.prems" show ?thesis
      by (auto simp: scan_frame.simps [of nfd i])
  next
    case True
    show ?thesis
    proof (cases "track = []")
      case empty: True
      with True "1.prems"(1)
      have run: "scan_frame nfd (Suc i) (track @ [ff ! i]) (remove1 (ff ! i) ff) = Inr (track', ff')"
        by (simp add: scan_frame.simps [of nfd i])
      have "I nfd (Suc i) (track @ [ff ! i]) (remove1 (ff ! i) ff)"
        using app [OF "1.prems"(2) True] empty by simp
      from "1.IH"(1) [OF True empty run this] show ?thesis .
    next
      case False
      show ?thesis
      proof (cases "frame (ff ! i) - frame (last track) \<le> nfd")
        case gap: False
        with False True "1.prems" show ?thesis
          by (auto simp: scan_frame.simps [of nfd i])
      next
        case gap: True
        from "1.prems"(1) False gap True
        obtain iou where iou: "bb_intersection_over_union (bbox (ff ! i)) (bbox (last track)) False = Inr iou"
          by (cases "bb_intersection_over_union (bbox (ff ! i)) (bbox (last track)) False")
            (auto simp: scan_frame.simps [of nfd i])
        show ?thesis
        proof (cases "iouThres < iou")
          case q: True
          with False gap iou True "1.prems"(1)
          have run: "scan_frame nfd (Suc i) (track @ [ff ! i]) (remove1 (ff ! i) ff) = Inr (track', ff')"
            by (simp add: scan_frame.simps [of nfd i])
          have "qualifies nfd (last track) (ff ! i)"
            using gap iou q by (simp add: qualifies_def)
          then have "I nfd (Suc i) (track @ [ff ! i]) (remove1 (ff ! i) ff)"
            using app [OF "1.prems"(2) True] by simp
          from "1.IH"(2) [OF True False gap iou q run this] show ?thesis .
        next
          case nq: False
          with False gap iou True "1.prems"(1)
          have run: "scan_frame nfd (Suc i) track ff = Inr (track', ff')"
            by (simp add: scan_frame.simps [of nfd i])
          have "I nfd (Suc i) track ff"
            using skip [OF "1.prems"(2) True False] .
          from "1.IH"(3) [OF True False gap iou nq run this] show ?thesis .
        qed
      qed
    qed
  qed
qed

lemma scan_frame_keeps_head:
  assumes "scan_frame nfd i track ff = Inr (track', ff')" and "track \<noteq> []"
  shows "track' \<noteq> [] \<and> hd track' = hd track"
proof -
  have "\<exists>j::nat. track' \<noteq> [] \<and> hd track' = hd track"
    by (rule scan_frame_inv [where I = "\<lambda>n i t f. t \<noteq> [] \<and> hd t = hd track", OF _ _ assms(1)])
      (use assms(2) in auto)
  then show ?thesis by simp
qed

lemma scan_frame_seed:
  assumes "scan_frame nfd i [] ff = Inr (track', ff')" and "i < length ff"
  shows "track' \<noteq> [] \<and> hd track' = ff ! i"
proof -
  from assms have "scan_frame nfd (Suc i) [ff ! i] (remove1 (ff ! i) ff) = Inr (track', ff')"
    by (simp add: scan_frame.simps [of nfd i])
  from scan_frame_keeps_head [OF this] show ?thesis
    by simp
qed

lemma scan_frame_nothing:
  "scan_frame nfd 0 [] [] = Inr ([], [])"
  by (simp add: scan_frame.simps)

lemma scan_pass_keeps_head:
  "scan_pass nfd track pool = Inr (track', pool') \<Longrightarrow> track \<noteq> [] \<Longrightarrow>
   track' \<noteq> [] \<and> hd track' = hd track"
proof (induction pool arbitrary: track pool')
  case Nil
  then show ?case by simp
next
  case (Cons ff pool)
  from Cons.prems(1) obtain mid ff' rest where
    one: "scan_frame nfd 0 track ff = Inr (mid, ff')"
    and more: "scan_pass nfd mid pool = Inr (track', rest)"
    by (auto split: sum.splits prod.splits)
  from scan_frame_keeps_head [OF one Cons.prems(2)] Cons.IH [OF more] show ?case
    by simp
qed

lemma scan_pass_seed:
  "scan_pass nfd [] pool = Inr (track', pool') \<Longrightarrow> concat pool \<noteq> [] \<Longrightarrow>
   track' \<noteq> [] \<and> hd track' = hd (concat pool)"
proof (induction pool arbitrary: pool')
  case Nil
  then show ?case by simp
next
  case (Cons ff pool)
  from Cons.prems(1) obtain mid ff' rest where
    one: "scan_frame nfd 0 [] ff = Inr (mid, ff')"
    and more: "scan_pass nfd mid pool = Inr (track', rest)"
    by (auto split: sum.splits prod.splits)
  show ?case
  proof (cases ff)
    case Nil
    with one have "mid = []"
      by (simp add: scan_frame_nothing)
    with more Cons.IH [of rest] Cons.prems(2) Nil show ?thesis
      by simp
  next
    case (Cons x xs)
    with scan_frame_seed [OF one] have "mid \<noteq> [] \<and> hd mid = x"
      by simp
    with scan_pass_keeps_head [OF more] Cons show ?thesis
      by simp
  qed
qed

text \<open>A track in which every detection qualified against the one before it.\<close>

fun linked :: "int \<Rightarrow> detection list \<Rightarrow> bool" where
  "linked nfd (prev # face # rest) = (qualifies nfd prev face \<and> linked nfd (face # rest))"
| "linked nfd rest = True"

lemma linked_snoc:
  "linked nfd t \<Longrightarrow> t = [] \<or> qualifies nfd (last t) x \<Longrightarrow> linked nfd (t @ [x])"
  by (induction nfd t rule: linked.induct) auto

lemma scan_frame_linked:
  assumes "scan_frame nfd i track ff = Inr (track', ff')" and "linked nfd track"
  shows "linked nfd track'"
proof -
  have "\<exists>j::nat. linked nfd track'"
    by (rule scan_frame_inv [where I = "\<lambda>n i t f. linked n t", OF _ _ assms])
      (auto intro: linked_snoc)
  then show ?thesis by simp
qed

lemma scan_pass_linked:
  "scan_pass nfd track pool = Inr (track', pool') \<Longrightarrow> linked nfd track \<Longrightarrow> linked nfd track'"
proof (induction pool arbitrary: track pool')
  case Nil
  then show ?case by simp
next
  case (Cons ff pool)
  from Cons.prems(1) obtain mid ff' rest where
    one: "scan_frame nfd 0 track ff = Inr (mid, ff')"
    and more: "scan_pass nfd mid pool = Inr (track', rest)"
    by (auto split: sum.splits prod.splits)
  from Cons.IH [OF more scan_frame_linked [OF one Cons.prems(2)]] show ?case .
qed

lemma shot_candidates_partition:
  "shot_candidates nfd pool = Inr (candidates, pool') \<Longrightarrow>
   mset (concat candidates) + mset (concat pool') = mset (concat pool)
   \<and> (\<forall>c \<in> set candidates. c \<noteq> [] \<and> linked nfd c)"
proof (induction nfd pool arbitrary: candidates pool' rule: shot_candidates.induct)
  case (1 nfd pool)
  from "1.prems" obtain c mid where pass: "scan_pass nfd [] pool = Inr (c, mid)"
    by (cases "scan_pass nfd [] pool") (auto simp: shot_candidates.simps [of nfd pool])
  show ?case
  proof (cases "c = []")
    case True
    with "1.prems" pass have "candidates = []" and "pool' = mid"
      by (simp_all add: shot_candidates.simps [of nfd pool])
    with scan_pass_mset [OF pass] True show ?thesis
      by simp
  next
    case False
    with "1.prems" pass obtain cs where
      rest: "shot_candidates nfd mid = Inr (cs, pool')" and c: "candidates = c # cs"
      by (cases "shot_candidates nfd mid") (auto simp: shot_candidates.simps [of nfd pool])
    from "1.IH" [OF pass refl False rest] scan_pass_mset [OF pass] scan_pass_linked [OF pass]
    show ?thesis
      using False c by (auto simp: union_ac)
  qed
qed

lemma track_shot_loop_candidates:
  "track_shot_loop a pool tracks =
     (case shot_candidates (num_failed_det a) pool of
        Inl e \<Rightarrow> Inl e
      | Inr (candidates, pool') \<Rightarrow>
          Inr (tracks @ List.map_filter (finish_candidate a) candidates, pool'))"
proof (induction a pool tracks rule: track_shot_loop.induct)
  case (1 a pool tracks)
  show ?case
  proof (cases "scan_pass (num_failed_det a) [] pool")
    case (Inl e)
    then show ?thesis
      by (simp add: track_shot_loop.simps [of a pool] shot_candidates.simps [of _ pool])
  next
    case (Inr r)
    obtain c mid where r: "r = (c, mid)"
      by (cases r)
    show ?thesis
    proof (cases "c = []")
      case True
      with Inr r show ?thesis
        by (simp add: track_shot_loop.simps [of a pool] shot_candidates.simps [of _ pool]
            List.map_filter_simps)
    next
      case False
      show ?thesis
      proof (cases "finish_candidate a c")
        case None
        from "1.IH"(1) [OF Inr r [symmetric] False None] Inr r False None show ?thesis
          by (simp add: track_shot_loop.simps [of a pool] shot_candidates.simps [of _ pool]
              List.map_filter_simps split: sum.splits prod.splits)
      next
        case (Some t)
        from "1.IH"(2) [OF Inr r [symmetric] False Some] Inr r False Some show ?thesis
          by (simp add: track_shot_loop.simps [of a pool] shot_candidates.simps [of _ pool]
              List.map_filter_simps split: sum.splits prod.splits)
      qed
    qed
  qed
qed

definition face_at :: "int \<Rightarrow> box \<Rightarrow> detection" where
  "face_at f b = \<lparr>frame = f, bbox = b, conf = 9 / 10\<rparr>"

definition example_args :: args where
  "example_args = \<lparr>min_track = 2, num_failed_det = 10, min_face_size = 1\<rparr>"

definition crowded_shot :: "detection list list" where
  "crowded_shot =
     [[face_at 0 (0, 0, 10, 10)],
      [face_at 1 (0, 0, 10, 10), face_at 1 (0, 1, 10, 11), face_at 1 (1, 0, 11, 10)]]"

definition steady_shot :: "detection list list" where
  "steady_shot =
     [[face_at 0 (0, 0, 10, 10)], [face_at 1 (1, 0, 11, 10)], [face_at 2 (2, 0, 12, 10)]]"

lemma crowded_pass:
  "scan_pass 10 [] crowded_shot
   = Inr ([face_at 0 (0, 0, 10, 10), face_at 1 (0, 0, 10, 10), face_at 1 (1, 0, 11, 10)],
          [[], [face_at 1 (0, 1, 10, 11)]])"
  by code_simp

lemma crowded_candidates:
  "shot_candidates 10 crowded_shot
   = Inr ([[face_at 0 (0, 0, 10, 10), face_at 1 (0, 0, 10, 10), face_at 1 (1, 0, 11, 10)],
           [face_at 1 (0, 1, 10, 11)]], [[], []])"
  by code_simp

lemma crowded_tracks:
  "track_shot example_args crowded_shot
   = Inr ([\<lparr>t_frame = [0, 1], t_bbox = [(0, 0, 10, 10), (1, 0, 11, 10)],
             t_confidence = [9 / 10, 9 / 10]\<rparr>], [[], []])"
  by code_simp


lemma steady_candidates:
  "shot_candidates 10 steady_shot
   = Inr ([[face_at 0 (0, 0, 10, 10), face_at 1 (1, 0, 11, 10), face_at 2 (2, 0, 12, 10)]],
          [[], [], []])"
  by code_simp

lemma steady_tracks:
  "track_shot example_args steady_shot
   = Inr ([\<lparr>t_frame = [0, 1, 2], t_bbox = [(0, 0, 10, 10), (1, 0, 11, 10), (2, 0, 12, 10)],
             t_confidence = [9 / 10, 9 / 10, 9 / 10]\<rparr>], [[], [], []])"
  by code_simp

section \<open>Shots shorter than the minimum track length\<close>

text \<open>
  C3.  A shot whose frame numbers satisfy \<open>end - start < min_track\<close> contributes
  nothing: \<^verbatim>\<open>track_faces\<close> returns the same tracks and leaves the same pool as without
  that shot, \<^verbatim>\<open>track_shot\<close> not being called for it.  A shot of fewer than
  \<open>min_track\<close> frames satisfies the condition whether its frames are counted as
  \<open>end - start\<close> or, both ends included, as \<open>end - start + 1\<close>.
\<close>

theorem short_shot_skipped:
  assumes "int (snd shot) - int (fst shot) < min_track a"
  shows "track_faces a (before @ shot # after) face_detections
         = track_faces a (before @ after) face_detections"
proof (induction before arbitrary: face_detections)
  case Nil
  from assms show ?case
    by simp
next
  case (Cons s before)
  show ?case
    by (simp add: Cons.IH cong: sum.case_cong prod.case_cong)
qed

theorem short_shot_skipped_witness:
  "int (snd ((0, 1) :: shot)) - int (fst ((0, 1) :: shot)) < min_track example_args
   \<and> track_faces example_args ([] @ (0, 1) # [(0, 2)]) steady_shot
     = track_faces example_args ([] @ [(0, 2)]) steady_shot
   \<and> track_faces example_args [(0, 1)] steady_shot = Inr ([], steady_shot)"
proof -
  have short: "int (snd ((0, 1) :: shot)) - int (fst ((0, 1) :: shot)) < min_track example_args"
    by (simp add: example_args_def)
  have "track_faces example_args ([] @ (0, 1) # []) steady_shot
        = track_faces example_args ([] @ []) steady_shot"
    using short by (rule short_shot_skipped)
  then have "track_faces example_args [(0, 1)] steady_shot = Inr ([], steady_shot)"
    by simp
  with short short_shot_skipped [OF short, of "[]" "[(0, 2)]" steady_shot] show ?thesis
    by blast
qed

section \<open>Chronological pools\<close>

text \<open>
  In a pool whose detections carry non-decreasing frame numbers in scan order, as
  in every pool built by \<^verbatim>\<open>detect_faces\<close>, a candidate's frame numbers are
  non-decreasing too.
\<close>

lemma set_drop_remove1: "set (drop n (remove1 x xs)) \<subseteq> set (drop n xs)"
proof (induction xs arbitrary: n)
  case Nil
  then show ?case by simp
next
  case (Cons y ys)
  show ?case
  proof (cases n)
    case 0
    then show ?thesis
      using set_remove1_subset [of x "y # ys"] by simp
  next
    case (Suc m)
    show ?thesis
    proof (cases "x = y")
      case True
      then show ?thesis
        using Suc set_drop_subset_set_drop [of m "Suc m" ys] by simp
    next
      case False
      then show ?thesis
        using Suc Cons.IH [of m] by simp
    qed
  qed
qed

lemma in_set_dropD:
  assumes "y \<in> set (drop n xs)"
  shows "\<exists>k. n \<le> k \<and> k < length xs \<and> y = xs ! k"
proof -
  from assms obtain j where j: "j < length (drop n xs)" and y: "y = drop n xs ! j"
    by (auto simp: in_set_conv_nth)
  from j have "n + j < length xs"
    by simp
  with y show ?thesis
    by (intro exI [of _ "n + j"]) simp
qed

lemma sorted_le_last: "sorted (map f xs) \<Longrightarrow> x \<in> set xs \<Longrightarrow> f x \<le> f (last xs)"
  by (induction xs) auto

lemma chron_append:
  assumes s: "sorted (map frame t)"
    and b: "t \<noteq> [] \<longrightarrow> frame (last t) \<le> frame x"
  shows "sorted (map frame (t @ [x]))"
proof (cases "t = []")
  case True
  then show ?thesis by simp
next
  case False
  have "frame a \<le> frame x" if "a \<in> set t" for a
  proof -
    have "frame a \<le> frame (last t)"
      using s that by (rule sorted_le_last)
    then show ?thesis
      using b False by simp
  qed
  then show ?thesis
    using s by (auto simp: sorted_append)
qed

lemma chron_later:
  assumes sf: "sorted (map frame (f @ R))" and i: "i < length f"
  shows "\<forall>y \<in> set (drop (Suc i) (remove1 (f ! i) f)) \<union> set R. frame (f ! i) \<le> frame y"
proof
  fix y
  assume "y \<in> set (drop (Suc i) (remove1 (f ! i) f)) \<union> set R"
  then consider "y \<in> set (drop (Suc i) f)" | "y \<in> set R"
    using set_drop_remove1 [of "Suc i" "f ! i" f] by blast
  then show "frame (f ! i) \<le> frame y"
  proof cases
    case 1
    then obtain k where k: "Suc i \<le> k" "k < length f" "y = f ! k"
      by (blast dest: in_set_dropD)
    from sf have "sorted (map frame f)"
      by (simp add: sorted_append)
    from sorted_nth_mono [OF this, of i k] k show ?thesis
      by simp
  next
    case 2
    with sf i show ?thesis
      by (auto simp: sorted_append)
  qed
qed

lemma scan_frame_chron:
  assumes run: "scan_frame nfd i track ff = Inr (track', ff')"
    and s: "sorted (map frame track)"
    and sf: "sorted (map frame (ff @ R))"
    and b: "track \<noteq> [] \<longrightarrow> (\<forall>x \<in> set (drop i ff) \<union> set R. frame (last track) \<le> frame x)"
  shows "sorted (map frame track') \<and> sorted (map frame (ff' @ R))
       \<and> (track' \<noteq> [] \<longrightarrow> (\<forall>x \<in> set R. frame (last track') \<le> frame x))"
proof -
  let ?I = "\<lambda>(n::int) i t f. sorted (map frame t) \<and> sorted (map frame (f @ R))
      \<and> (t \<noteq> [] \<longrightarrow> (\<forall>x \<in> set (drop i f) \<union> set R. frame (last t) \<le> frame x))"
  have app: "?I n (Suc i) (t @ [f ! i]) (remove1 (f ! i) f)"
    if inv: "?I n i t f" and i: "i < length f" for n i t f
  proof -
    from i have "f ! i \<in> set (drop i f)"
      by (metis Cons_nth_drop_Suc list.set_intros(1))
    with inv have "t \<noteq> [] \<longrightarrow> frame (last t) \<le> frame (f ! i)"
      by blast
    with inv have 1: "sorted (map frame (t @ [f ! i]))"
      by (intro chron_append) auto
    from i have "remove1 (f ! i) f @ R = remove1 (f ! i) (f @ R)"
      by (simp add: remove1_append)
    with inv have 2: "sorted (map frame (remove1 (f ! i) f @ R))"
      by (simp add: sorted_map_remove1)
    from inv i have 3: "\<forall>y \<in> set (drop (Suc i) (remove1 (f ! i) f)) \<union> set R. frame (f ! i) \<le> frame y"
      by (intro chron_later) auto
    from 1 2 3 show ?thesis
      by simp
  qed
  have skip: "?I n (Suc i) t f" if inv: "?I n i t f" for n i t f
  proof -
    have "set (drop (Suc i) f) \<subseteq> set (drop i f)"
      by (rule set_drop_subset_set_drop) simp
    with inv show ?thesis
      by blast
  qed
  from s sf b have init: "?I nfd i track ff"
    by simp
  have "\<exists>j. ?I nfd j track' ff'"
  proof (rule scan_frame_inv [where I = ?I, OF _ _ run init])
    show "?I n (Suc i) (t @ [f ! i]) (remove1 (f ! i) f)"
      if "?I n i t f" and "i < length f" and "t = [] \<or> qualifies n (last t) (f ! i)" for n i t f
      using that(1,2) by (rule app)
    show "?I n (Suc i) t f" if "?I n i t f" and "i < length f" and "t \<noteq> []" for n i t f
      using that(1) by (rule skip)
  qed
  then show ?thesis
    by blast
qed

lemma scan_frame_subset:
  assumes "scan_frame nfd i track ff = Inr (track', ff')"
  shows "set ff' \<subseteq> set ff"
proof -
  have "\<exists>j::nat. set ff' \<subseteq> set ff"
  proof (rule scan_frame_inv [where I = "\<lambda>n i t f. set f \<subseteq> set ff", OF _ _ assms])
    show "set (remove1 (f ! i) f) \<subseteq> set ff" if "set f \<subseteq> set ff" for f and i :: nat
      using that set_remove1_subset [of "f ! i" f] by blast
  qed simp_all
  then show ?thesis by simp
qed

lemma scan_pass_subset:
  "scan_pass nfd track pool = Inr (track', pool') \<Longrightarrow> set (concat pool') \<subseteq> set (concat pool)"
proof (induction pool arbitrary: track pool')
  case Nil
  then show ?case by simp
next
  case (Cons ff pool)
  from Cons.prems obtain mid ff' rest where
    one: "scan_frame nfd 0 track ff = Inr (mid, ff')"
    and more: "scan_pass nfd mid pool = Inr (track', rest)"
    and p: "pool' = ff' # rest"
    by (auto split: sum.splits prod.splits)
  from scan_frame_subset [OF one] Cons.IH [OF more] p show ?case
    by auto
qed

lemma scan_pass_chron:
  "scan_pass nfd track pool = Inr (track', pool') \<Longrightarrow> sorted (map frame track) \<Longrightarrow>
   sorted (map frame (concat pool)) \<Longrightarrow>
   (track \<noteq> [] \<longrightarrow> (\<forall>x \<in> set (concat pool). frame (last track) \<le> frame x)) \<Longrightarrow>
   sorted (map frame track') \<and> sorted (map frame (concat pool'))"
proof (induction pool arbitrary: track pool')
  case Nil
  then show ?case by simp
next
  case (Cons ff pool)
  from Cons.prems(1) obtain mid ff' rest where
    one: "scan_frame nfd 0 track ff = Inr (mid, ff')"
    and more: "scan_pass nfd mid pool = Inr (track', rest)"
    and p: "pool' = ff' # rest"
    by (auto split: sum.splits prod.splits)
  from Cons.prems(3) have sf: "sorted (map frame (ff @ concat pool))"
    by simp
  from Cons.prems(4)
  have b: "track \<noteq> [] \<longrightarrow> (\<forall>x \<in> set (drop 0 ff) \<union> set (concat pool). frame (last track) \<le> frame x)"
    by simp
  from scan_frame_chron [OF one Cons.prems(2) sf b]
  have m: "sorted (map frame mid)" and f: "sorted (map frame (ff' @ concat pool))"
    and mb: "mid \<noteq> [] \<longrightarrow> (\<forall>x \<in> set (concat pool). frame (last mid) \<le> frame x)"
    by blast+
  from f have sp: "sorted (map frame (concat pool))"
    by (simp add: sorted_append)
  from Cons.IH [OF more m sp mb]
  have t: "sorted (map frame track')" and r: "sorted (map frame (concat rest))"
    by blast+
  have "sorted (map frame (ff' @ concat rest))"
    using f r scan_pass_subset [OF more] by (auto simp: sorted_append)
  with t p show ?case
    by simp
qed

lemma shot_candidates_chron:
  "shot_candidates nfd pool = Inr (candidates, pool') \<Longrightarrow> sorted (map frame (concat pool)) \<Longrightarrow>
   \<forall>c \<in> set candidates. sorted (map frame c)"
proof (induction nfd pool arbitrary: candidates pool' rule: shot_candidates.induct)
  case (1 nfd pool)
  from "1.prems"(1) obtain c mid where pass: "scan_pass nfd [] pool = Inr (c, mid)"
    by (cases "scan_pass nfd [] pool") (auto simp: shot_candidates.simps [of nfd pool])
  from scan_pass_chron [OF pass _ "1.prems"(2)]
  have sc: "sorted (map frame c)" and sm: "sorted (map frame (concat mid))"
    by simp_all
  show ?case
  proof (cases "c = []")
    case True
    with "1.prems"(1) pass show ?thesis
      by (simp add: shot_candidates.simps [of nfd pool])
  next
    case False
    with "1.prems"(1) pass obtain cs where
      rest: "shot_candidates nfd mid = Inr (cs, pool')" and c: "candidates = c # cs"
      by (cases "shot_candidates nfd mid") (auto simp: shot_candidates.simps [of nfd pool])
    from "1.IH" [OF pass refl False rest sm] sc c show ?thesis
      by simp
  qed
qed

lemma detect_loop_chronological:
  "sorted (map frame (concat (fst (detect_loop fidx rs))))
   \<and> (\<forall>d \<in> set (concat (fst (detect_loop fidx rs))). int fidx \<le> frame d)"
proof (induction rs arbitrary: fidx)
  case Nil
  then show ?case by simp
next
  case (Cons r rs)
  obtain ds printed where dl: "detect_loop (Suc fidx) rs = (ds, printed)"
    by (cases "detect_loop (Suc fidx) rs")
  from Cons.IH [of "Suc fidx"] dl
  have s: "sorted (map frame (concat ds))" and l: "\<forall>d \<in> set (concat ds). int (Suc fidx) \<le> frame d"
    by simp_all
  have l': "int fidx \<le> frame d" if "d \<in> set (concat ds)" for d
    using l [rule_format, OF that] by simp
  show ?case
  proof (cases r)
    case Raised
    with dl s l' show ?thesis
      by simp
  next
    case NotAList
    with dl s l' show ?thesis
      by simp
  next
    case (Faces faces)
    let ?here = "frame_faces (int fidx) faces"
    have same: "frame d = int fidx" if "d \<in> set ?here" for d
      using frame_faces_valid [OF that] by simp
    then have "map frame ?here = map (\<lambda>d. int fidx) ?here"
      by (intro map_cong) simp_all
    then have "sorted (map frame ?here)"
      by (simp add: map_replicate_const)
    moreover have "frame d \<le> frame e" if "d \<in> set ?here" and "e \<in> set (concat ds)" for d e
      using same [OF that(1)] l' [OF that(2)] by simp
    ultimately have "sorted (map frame (?here @ concat ds))"
      using s by (auto simp: sorted_append)
    moreover have "int fidx \<le> frame d" if "d \<in> set (?here @ concat ds)" for d
      using that same l' by fastforce
    ultimately show ?thesis
      using Faces dl by simp
  qed
qed

lemma detect_faces_chronological:
  "sorted (map frame (concat (fst (detect_faces results))))"
  unfolding detect_faces_def using detect_loop_chronological by blast


section \<open>The frames of an emitted track\<close>

lemma upto_ends: "i \<le> j \<Longrightarrow> hd [i..j] = i \<and> last [i..j] = j"
  using upto_rec1 [of i j] upto_rec2 [of i j] by (metis last_snoc list.sel(1))

lemma map_filter_mem:
  "y \<in> set (List.map_filter f xs) \<Longrightarrow> \<exists>x. x \<in> set xs \<and> f x = Some y"
  by (induction xs) (auto split: option.splits)

lemma interpolate_track_frames:
  assumes "interpolate_track a c = Some t"
  shows "t_frame t = [hd (map frame c)..last (map frame c)] \<and> t_frame t \<noteq> []"
proof -
  let ?frameI = "[hd (map frame c)..last (map frame c)]"
  from assms have "t_frame t = ?frameI"
    by (auto simp: interpolate_track_def Let_def split: option.splits if_splits)
  moreover have "?frameI \<noteq> []"
  proof
    assume "?frameI = []"
    with assms show False
      by (simp add: interpolate_track_def Let_def numpy_mean_def)
  qed
  ultimately show ?thesis by simp
qed

lemma strictly_increasing_span:
  fixes xs :: "int list"
  shows "sorted_wrt (<) xs \<Longrightarrow> xs \<noteq> [] \<Longrightarrow> int (length xs) \<le> last xs - hd xs + 1"
proof (induction xs)
  case Nil
  then show ?case by simp
next
  case (Cons x xs)
  show ?case
  proof (cases xs)
    case Nil
    then show ?thesis by simp
  next
    case (Cons y ys)
    with Cons.prems have "x < y" and "sorted_wrt (<) xs"
      by simp_all
    with Cons.IH Cons show ?thesis
      by simp
  qed
qed

text \<open>
  C4, as the code has it.  Every emitted track is the finished form of one candidate
  of the association.  Its frames are the integers from the frame of the candidate's
  first detection to the frame of its last, each one more than the one before, so
  their number is \<open>frames[-1] - frames[0] + 1\<close>.  The candidate has more than
  \<open>min_track\<close> detections; the track has more than \<open>min_track\<close> frames when the frame
  numbers of these detections are strictly increasing.  In a chronological pool the
  frame numbers of a candidate never decrease, so there it is enough that no two
  detections of the candidate lie on one frame.
\<close>

theorem emitted_track_frames:
  assumes "track_shot a sceneFaces = Inr (tracks, pool)" and "t \<in> set tracks"
  shows "\<exists>candidates c.
           shot_candidates (num_failed_det a) sceneFaces = Inr (candidates, pool)
         \<and> c \<in> set candidates \<and> finish_candidate a c = Some t
         \<and> min_track a < int (length c)
         \<and> t_frame t = [frame (hd c)..frame (last c)] \<and> t_frame t \<noteq> []
         \<and> int (length (t_frame t)) = last (t_frame t) - hd (t_frame t) + 1
         \<and> (\<forall>k. Suc k < length (t_frame t) \<longrightarrow> t_frame t ! Suc k = t_frame t ! k + 1)
         \<and> (sorted_wrt (<) (map frame c) \<longrightarrow> min_track a < int (length (t_frame t)))
         \<and> (sorted (map frame (concat sceneFaces)) \<longrightarrow> sorted (map frame c))
         \<and> (sorted (map frame (concat sceneFaces)) \<and> distinct (map frame c) \<longrightarrow>
              min_track a < int (length (t_frame t)))"
proof -
  from assms(1) obtain candidates where
    cands: "shot_candidates (num_failed_det a) sceneFaces = Inr (candidates, pool)"
    and tracks: "tracks = List.map_filter (finish_candidate a) candidates"
    unfolding track_shot_def track_shot_loop_candidates
    by (auto split: sum.splits prod.splits)
  from assms(2) tracks obtain c where c: "c \<in> set candidates" and fin: "finish_candidate a c = Some t"
    by (auto dest: map_filter_mem)
  from shot_candidates_partition [OF cands] c have ne: "c \<noteq> []"
    by blast
  from fin have long: "min_track a < int (length c)" and ip: "interpolate_track a c = Some t"
    by (simp_all add: finish_candidate_def split: if_splits)
  from interpolate_track_frames [OF ip]
  have fr0: "t_frame t = [hd (map frame c)..last (map frame c)]" and fne: "t_frame t \<noteq> []"
    by blast+
  from fr0 ne have fr: "t_frame t = [frame (hd c)..frame (last c)]"
    by (simp add: hd_map last_map)
  from fr fne have le: "frame (hd c) \<le> frame (last c)"
    by (simp add: upto_Nil)
  have len: "int (length (t_frame t)) = last (t_frame t) - hd (t_frame t) + 1"
    using fr le by (simp add: upto_ends)
  have step: "t_frame t ! Suc k = t_frame t ! k + 1" if "Suc k < length (t_frame t)" for k
  proof -
    from that fr le have "frame (hd c) + int (Suc k) \<le> frame (last c)"
      by simp
    then show ?thesis
      using fr by (simp add: nth_upto)
  qed
  have many: "min_track a < int (length (t_frame t))" if "sorted_wrt (<) (map frame c)"
  proof -
    from strictly_increasing_span [OF that] ne
    have "int (length c) \<le> frame (last c) - frame (hd c) + 1"
      by (simp add: hd_map last_map)
    with long fr le show ?thesis
      by simp
  qed
  have chron: "sorted (map frame c)" if "sorted (map frame (concat sceneFaces))"
    using shot_candidates_chron [OF cands that] c by blast
  have many': "min_track a < int (length (t_frame t))"
    if "sorted (map frame (concat sceneFaces)) \<and> distinct (map frame c)"
  proof -
    from that chron have "sorted_wrt (<) (map frame c)"
      by (simp add: strict_sorted_iff)
    then show ?thesis
      by (rule many)
  qed
  from cands c fin long fr fne len step many chron many' show ?thesis
    by blast
qed

theorem emitted_track_frames_witness:
  "track_shot example_args steady_shot
     = Inr ([\<lparr>t_frame = [0, 1, 2], t_bbox = [(0, 0, 10, 10), (1, 0, 11, 10), (2, 0, 12, 10)],
               t_confidence = [9 / 10, 9 / 10, 9 / 10]\<rparr>], [[], [], []])
   \<and> min_track example_args < int (length [0, 1, 2 :: int])
   \<and> (\<exists>c. c \<in> set [[face_at 0 (0, 0, 10, 10), face_at 1 (1, 0, 11, 10), face_at 2 (2, 0, 12, 10)]]
          \<and> [0, 1, 2] = [frame (hd c)..frame (last c)])"
proof -
  let ?t = "\<lparr>t_frame = [0, 1, 2], t_bbox = [(0, 0, 10, 10), (1, 0, 11, 10), (2, 0, 12, 10)],
               t_confidence = [9 / 10, 9 / 10, 9 / 10]\<rparr>"
  have mem: "?t \<in> set [?t]"
    by simp
  from emitted_track_frames [OF steady_tracks mem] obtain candidates c where
    cs: "shot_candidates (num_failed_det example_args) steady_shot = Inr (candidates, [[], [], []])"
    and c: "c \<in> set candidates" and f: "t_frame ?t = [frame (hd c)..frame (last c)]"
    by blast
  have "num_failed_det example_args = 10"
    by (simp add: example_args_def)
  with cs steady_candidates
  have "candidates = [[face_at 0 (0, 0, 10, 10), face_at 1 (1, 0, 11, 10), face_at 2 (2, 0, 12, 10)]]"
    by simp
  with c have c': "c \<in> set [[face_at 0 (0, 0, 10, 10), face_at 1 (1, 0, 11, 10), face_at 2 (2, 0, 12, 10)]]"
    by simp
  have f': "[0, 1, 2] = [frame (hd c)..frame (last c)]"
    using f by simp
  from c' f' have ex: "\<exists>c. c \<in> set [[face_at 0 (0, 0, 10, 10), face_at 1 (1, 0, 11, 10), face_at 2 (2, 0, 12, 10)]]
          \<and> [0, 1, 2] = [frame (hd c)..frame (last c)]"
    by blast
  have m: "min_track example_args < int (length [0, 1, 2 :: int])"
    by (simp add: example_args_def)
  from steady_tracks m ex show ?thesis
    by blast
qed

text \<open>
  The claim that every emitted track has more than \<open>min_track\<close> frames fails on a
  frame with three overlapping detections: the first and the third both join the
  track, which then has three detections on two frames, while \<open>min_track\<close> is two.
\<close>

theorem emitted_track_too_short:
  "track_shot example_args crowded_shot
     = Inr ([\<lparr>t_frame = [0, 1], t_bbox = [(0, 0, 10, 10), (1, 0, 11, 10)],
               t_confidence = [9 / 10, 9 / 10]\<rparr>], [[], []])
   \<and> \<not> min_track example_args < int (length [0, 1 :: int])"
  using crowded_tracks by (simp add: example_args_def)

section \<open>A detection the scan does not visit\<close>

text \<open>
  The association as the specification words it: every detection of a frame's pool
  is considered, in the order of the pool, whatever was removed before it.  The
  detections to visit are the list as it stood when the frame was reached; the pool
  loses the detections that join.
\<close>

fun spec_scan_frame ::
  "int \<Rightarrow> detection list \<Rightarrow> detection list \<Rightarrow> detection list
   \<Rightarrow> py_error + detection list \<times> detection list" where
  "spec_scan_frame nfd [] track frameFaces = Inr (track, frameFaces)"
| "spec_scan_frame nfd (face # faces) track frameFaces =
     (if track = [] then spec_scan_frame nfd faces (track @ [face]) (remove1 face frameFaces)
      else if frame face - frame (last track) \<le> nfd then
        (case bb_intersection_over_union (bbox face) (bbox (last track)) False of
           Inl e \<Rightarrow> Inl e
         | Inr iou \<Rightarrow>
             if iouThres < iou then
               spec_scan_frame nfd faces (track @ [face]) (remove1 face frameFaces)
             else spec_scan_frame nfd faces track frameFaces)
      else Inr (track, frameFaces))"

fun spec_scan_pass ::
  "int \<Rightarrow> detection list \<Rightarrow> detection list list \<Rightarrow> py_error + detection list \<times> detection list list" where
  "spec_scan_pass nfd track [] = Inr (track, [])"
| "spec_scan_pass nfd track (frameFaces # sceneFaces) =
     (case spec_scan_frame nfd frameFaces track frameFaces of
        Inl e \<Rightarrow> Inl e
      | Inr (track', frameFaces') \<Rightarrow>
          (case spec_scan_pass nfd track' sceneFaces of
             Inl e \<Rightarrow> Inl e
           | Inr (track'', sceneFaces') \<Rightarrow> Inr (track'', frameFaces' # sceneFaces')))"

lemma crowded_spec_pass:
  "spec_scan_pass 10 [] crowded_shot
   = Inr ([face_at 0 (0, 0, 10, 10), face_at 1 (0, 0, 10, 10), face_at 1 (0, 1, 10, 11),
           face_at 1 (1, 0, 11, 10)], [[], []])"
  by code_simp

lemma crowded_qualifies:
  "qualifies 10 (face_at 0 (0, 0, 10, 10)) (face_at 1 (0, 1, 10, 11))"
  "qualifies 10 (face_at 1 (0, 0, 10, 10)) (face_at 1 (0, 1, 10, 11))"
  "qualifies 10 (face_at 1 (1, 0, 11, 10)) (face_at 1 (0, 1, 10, 11))"
  by code_simp+

text \<open>
  C5.  The loop removes from the list it iterates over, so the detection stored
  right after a removed one is not visited.  On a shot of two frames, the seed \<open>T\<close>
  on frame \<open>0\<close> and three overlapping detections \<open>A\<close>, \<open>B\<close>, \<open>C\<close> on frame \<open>1\<close>, the pass
  of the code appends \<open>A\<close> and \<open>C\<close> and leaves \<open>B\<close> in the pool, although \<open>B\<close> is
  within the gap and overlaps each of \<open>T\<close>, \<open>A\<close> and \<open>C\<close> by more than \<open>0.5\<close>: it is not
  appended when it qualifies.  The association that considers every detection of
  the frame appends \<open>A\<close>, \<open>B\<close> and \<open>C\<close> and empties the pool.  In both, the seed is the
  first detection of the shot and each detection is in the track or in the pool,
  once.
\<close>

theorem qualifying_detection_skipped:
  "scan_pass 10 [] crowded_shot
     = Inr ([face_at 0 (0, 0, 10, 10), face_at 1 (0, 0, 10, 10), face_at 1 (1, 0, 11, 10)],
            [[], [face_at 1 (0, 1, 10, 11)]])
   \<and> qualifies 10 (face_at 0 (0, 0, 10, 10)) (face_at 1 (0, 1, 10, 11))
   \<and> qualifies 10 (face_at 1 (0, 0, 10, 10)) (face_at 1 (0, 1, 10, 11))
   \<and> qualifies 10 (face_at 1 (1, 0, 11, 10)) (face_at 1 (0, 1, 10, 11))
   \<and> face_at 1 (0, 1, 10, 11)
       \<notin> set [face_at 0 (0, 0, 10, 10), face_at 1 (0, 0, 10, 10), face_at 1 (1, 0, 11, 10)]
   \<and> spec_scan_pass 10 [] crowded_shot
     = Inr ([face_at 0 (0, 0, 10, 10), face_at 1 (0, 0, 10, 10), face_at 1 (0, 1, 10, 11),
             face_at 1 (1, 0, 11, 10)], [[], []])"
proof -
  have "face_at 1 (0, 1, 10, 11)
       \<notin> set [face_at 0 (0, 0, 10, 10), face_at 1 (0, 0, 10, 10), face_at 1 (1, 0, 11, 10)]"
    by (simp add: face_at_def)
  with crowded_pass crowded_qualifies crowded_spec_pass show ?thesis
    by blast
qed

end
